theory Spec2Isabelle
  imports Main "HOL-Library.Sublist" "HOL-Library.Multiset"
begin

section \<open>Python string operations used by \<open>yc_scraper.py\<close>\<close>

text \<open>
  A Python \<open>str\<close> is modelled as a \<open>string\<close>; a \<open>char\<close> stands for a code point below 256.
  \<open>str.isspace\<close> on that range holds for TAB..CR, FS..US, SPACE, NEL and NBSP.
\<close>

definition py_isspace :: "char \<Rightarrow> bool" where
  "py_isspace c = ((of_char c :: nat) \<in> {9, 10, 11, 12, 13, 28, 29, 30, 31, 32, 133, 160})"

text \<open>\<open>s.strip()\<close>: whitespace removed at both ends.\<close>

definition py_strip :: "string \<Rightarrow> string" where
  "py_strip s = rev (dropWhile py_isspace (rev (dropWhile py_isspace s)))"

text \<open>\<open>s.rstrip(chars)\<close>: trailing characters of \<open>chars\<close> removed.\<close>

definition py_rstrip :: "string \<Rightarrow> string \<Rightarrow> string" where
  "py_rstrip chars s = rev (dropWhile (\<lambda>c. c \<in> set chars) (rev s))"

text \<open>\<open>s.split(sep)\<close> for a one-character separator: never the empty list.\<close>

fun py_split_char :: "char \<Rightarrow> string \<Rightarrow> string list" where
  "py_split_char sep [] = [[]]"
| "py_split_char sep (c # cs) =
     (if c = sep then [] # py_split_char sep cs
      else (case py_split_char sep cs of
              [] \<Rightarrow> [[c]]
            | w # ws \<Rightarrow> (c # w) # ws))"

text \<open>\<open>xs[0]\<close>: raises IndexError on the empty list, modelled as \<open>None\<close>.\<close>

definition py_index0 :: "'a list \<Rightarrow> 'a option" where
  "py_index0 xs = (case xs of [] \<Rightarrow> None | x # _ \<Rightarrow> Some x)"

text \<open>
  \<open>s.split()\<close> with no argument: maximal runs of non-whitespace characters.
  \<open>cur\<close> is the token being read.
\<close>

fun split_ws :: "string \<Rightarrow> string \<Rightarrow> string list" where
  "split_ws cur [] = (if cur = [] then [] else [cur])"
| "split_ws cur (c # cs) =
     (if py_isspace c then (if cur = [] then split_ws [] cs else cur # split_ws [] cs)
      else split_ws (cur @ [c]) cs)"

definition py_split :: "string \<Rightarrow> string list" where
  "py_split s = split_ws [] s"

text \<open>\<open>sub in s\<close> on strings: \<open>sub\<close> occurs in \<open>s\<close> as a contiguous substring.\<close>

fun py_in :: "string \<Rightarrow> string \<Rightarrow> bool" where
  "py_in sub [] = (sub = [])"
| "py_in sub (c # cs) = (prefix sub (c # cs) \<or> py_in sub cs)"

text \<open>\<open>sep.join(xs)\<close>.\<close>

fun py_join :: "string \<Rightarrow> string list \<Rightarrow> string" where
  "py_join sep [] = []"
| "py_join sep [x] = x"
| "py_join sep (x # y # ys) = x @ sep @ py_join sep (y # ys)"

text \<open>\<open>xs[:n]\<close> for a Python integer \<open>n\<close>: a negative \<open>n\<close> counts from the end.\<close>

definition py_slice_to :: "int \<Rightarrow> 'a list \<Rightarrow> 'a list" where
  "py_slice_to n xs =
     (if 0 \<le> n then take (nat n) xs else take (length xs - nat (- n)) xs)"


section \<open>LinkedIn link clean-up (line 92)\<close>

text \<open>
  \<open>clean_link = link.split('?')[0].rstrip('/')\<close>. The index \<open>[0]\<close> cannot fail because
  \<open>split\<close> never returns the empty list; the model keeps the failing branch and returns
  \<open>None\<close> there.
\<close>

definition clean_link :: "string \<Rightarrow> string option" where
  "clean_link link =
     map_option (py_rstrip ''/'') (py_index0 (py_split_char (CHR ''?'') link))"


section \<open>The rendered document and its locators\<close>

text \<open>
  The browser is outside the program. A rendered page is modelled as the list of its
  elements in document order, each with the attributes the scraper reads. The selectors
  are the ones written in the source; none of them nests, so a flat list is enough.
\<close>

record element =
  tag :: string
  classes :: "string list"
  href :: "string option"
  inner_text :: string
  visible :: bool

type_synonym document = "element list"

datatype selector =
    Tag string
  | TagClass string string
  | HrefPrefix string string
  | HrefContains string string
  | Either selector selector

text \<open>
  \<open>Tag ''h1''\<close> is \<open>h1\<close>, \<open>TagClass ''div'' ''font-bold''\<close> is \<open>div.font-bold\<close>,
  \<open>HrefPrefix ''a'' p\<close> is \<open>a[href^="p"]\<close>, \<open>HrefContains ''a'' p\<close> is \<open>a[href*="p"]\<close> and
  \<open>Either s t\<close> is the selector list \<open>s, t\<close>.
\<close>

fun matches :: "selector \<Rightarrow> element \<Rightarrow> bool" where
  "matches (Tag t) e = (tag e = t)"
| "matches (TagClass t c) e = (tag e = t \<and> c \<in> set (classes e))"
| "matches (HrefPrefix t p) e =
     (tag e = t \<and> (case href e of None \<Rightarrow> False | Some h \<Rightarrow> prefix p h))"
| "matches (HrefContains t p) e =
     (tag e = t \<and> (case href e of None \<Rightarrow> False | Some h \<Rightarrow> py_in p h))"
| "matches (Either s t) e = (matches s e \<or> matches t e)"

text \<open>\<open>page.locator(sel).all()\<close>.\<close>

definition locator_all :: "selector \<Rightarrow> document \<Rightarrow> element list" where
  "locator_all sel doc = filter (matches sel) doc"

text \<open>\<open>page.locator(sel).first\<close>: the first match in document order, if any.\<close>

definition locator_first :: "selector \<Rightarrow> document \<Rightarrow> element option" where
  "locator_first sel doc = (case locator_all sel doc of [] \<Rightarrow> None | e # _ \<Rightarrow> Some e)"

text \<open>Exceptions that \<open>except Exception\<close> catches.\<close>

datatype py_exception = TimeoutError | IndexError | PlaywrightError

text \<open>
  \<open>locator.first.inner_text()\<close> waits for a match and raises when none appears;
  \<open>locator.first.is_visible()\<close> answers \<open>False\<close> at once when nothing matches.
\<close>

definition first_inner_text :: "selector \<Rightarrow> document \<Rightarrow> py_exception + string" where
  "first_inner_text sel doc =
     (case locator_first sel doc of None \<Rightarrow> Inl TimeoutError | Some e \<Rightarrow> Inr (inner_text e))"

definition first_is_visible :: "selector \<Rightarrow> document \<Rightarrow> bool" where
  "first_is_visible sel doc =
     (case locator_first sel doc of None \<Rightarrow> False | Some e \<Rightarrow> visible e)"


section \<open>Profile extraction (lines 67 to 118)\<close>

text \<open>A result dictionary, with its keys in insertion order.\<close>

type_synonym row = "(string \<times> string) list"

text \<open>Lines 71 to 74 and 77 to 80: the default, replaced when the first match is visible.\<close>

definition text_or_default :: "selector \<Rightarrow> document \<Rightarrow> py_exception + string" where
  "text_or_default sel doc =
     (if first_is_visible sel doc then first_inner_text sel doc else Inr ''N/A'')"

text \<open>Lines 88 to 94: the loop over the LinkedIn anchors.\<close>

fun collect_links :: "element list \<Rightarrow> string list \<Rightarrow> py_exception + string list" where
  "collect_links [] founder_links = Inr founder_links"
| "collect_links (li # li_elements) founder_links =
     (case href li of
        None \<Rightarrow> collect_links li_elements founder_links
      | Some link \<Rightarrow>
          if link = [] then collect_links li_elements founder_links
          else (case clean_link link of
                  None \<Rightarrow> Inl IndexError
                | Some cl \<Rightarrow>
                    if cl \<in> set founder_links then collect_links li_elements founder_links
                    else collect_links li_elements (founder_links @ [cl])))"

definition blacklist :: "string list" where
  "blacklist = [''Founders'', ''Jobs'', ''Blog'', ''Team'', ''Company'', ''Launch'', ''News'']"

text \<open>Lines 103 to 105: the test a stripped candidate text has to pass.\<close>

definition name_accepted :: "string \<Rightarrow> bool" where
  "name_accepted text =
     (0 < length (py_split text) \<and> length (py_split text) \<le> 3
      \<and> \<not> list_ex (\<lambda>word. py_in word text) blacklist)"

text \<open>Lines 100 to 107: the inner loop over the elements of one selector.\<close>

fun collect_names_of :: "element list \<Rightarrow> string list \<Rightarrow> string list" where
  "collect_names_of [] founder_names = founder_names"
| "collect_names_of (el # elements) founder_names =
     (let text = py_strip (inner_text el) in
      if name_accepted text \<and> text \<notin> set founder_names
      then collect_names_of elements (founder_names @ [text])
      else collect_names_of elements founder_names)"

text \<open>Lines 98 and 99: the outer loop over \<open>name_selectors\<close>.\<close>

fun collect_names :: "selector list \<Rightarrow> document \<Rightarrow> string list \<Rightarrow> string list" where
  "collect_names [] doc founder_names = founder_names"
| "collect_names (sel # name_selectors) doc founder_names =
     collect_names name_selectors doc (collect_names_of (locator_all sel doc) founder_names)"

definition name_selectors :: "selector list" where
  "name_selectors = [TagClass ''div'' ''font-bold'', Tag ''h3'']"

definition batch_selector :: selector where
  "batch_selector = HrefContains ''a'' ''batch=''"

definition desc_selector :: selector where
  "desc_selector = Either (TagClass ''p'' ''whitespace-pre-line'') (TagClass ''div'' ''text-xl'')"

definition linkedin_selector :: selector where
  "linkedin_selector = HrefContains ''a'' ''linkedin.com/in/''"

text \<open>The dictionary of lines 112 to 118.\<close>

definition success_record ::
  "string \<Rightarrow> string \<Rightarrow> string \<Rightarrow> string list \<Rightarrow> string list \<Rightarrow> row" where
  "success_record name batch desc founder_names founder_links =
     [(''Company Name'', py_strip name),
      (''Batch'', py_strip batch),
      (''Short Description'', py_strip desc),
      (''Founder Name(s)'', py_join '', '' founder_names),
      (''Founder LinkedIn URL(s)'', py_join '', '' founder_links)]"

text \<open>The dictionary of line 123.\<close>

definition failure_record :: "string \<Rightarrow> row" where
  "failure_record url = [(''Company Name'', ''Error''), (''URL'', url)]"

text \<open>
  Lines 67 to 118 on a loaded document: the first exception raised, or the success
  dictionary.
\<close>

definition extract_details :: "document \<Rightarrow> py_exception + row" where
  "extract_details doc =
     (case first_inner_text (Tag ''h1'') doc of
        Inl e \<Rightarrow> Inl e
      | Inr name \<Rightarrow>
     (case text_or_default batch_selector doc of
        Inl e \<Rightarrow> Inl e
      | Inr batch \<Rightarrow>
     (case text_or_default desc_selector doc of
        Inl e \<Rightarrow> Inl e
      | Inr desc \<Rightarrow>
     (case collect_links (locator_all linkedin_selector doc) [] of
        Inl e \<Rightarrow> Inl e
      | Inr founder_links \<Rightarrow>
          Inr (success_record name batch desc
                 (collect_names name_selectors doc []) founder_links)))))"


section \<open>The retry loop of \<open>scrape_company_details\<close> (lines 49 to 124)\<close>

text \<open>
  What the browser does on one attempt.
  \<^item> \<open>Uncaught\<close>: an exception leaves the function, because it is raised where no handler
    is in force (\<open>context.new_page()\<close> on line 50, \<open>page.close()\<close> on line 121) or because it
    is not an instance of \<open>Exception\<close>.
  \<^item> \<open>Caught\<close>: a call of the \<open>try\<close> body before the extraction (routing, navigation) raises
    an \<open>Exception\<close>.
  \<^item> \<open>Loaded doc\<close>: the page loads and answers the queries of the extraction as \<open>doc\<close>.
\<close>

datatype attempt_outcome = Uncaught | Caught | Loaded document

datatype fault = TaskFault | WriteFault | RangeStepZero | DiscoveryFault

datatype event = Attempt nat | Backoff nat

definition try_body :: "attempt_outcome \<Rightarrow> fault + (py_exception + row)" where
  "try_body outcome =
     (case outcome of
        Uncaught \<Rightarrow> Inl TaskFault
      | Caught \<Rightarrow> Inr (Inl PlaywrightError)
      | Loaded doc \<Rightarrow> Inr (extract_details doc))"

text \<open>
  The \<open>for attempt in range(2)\<close> loop over the remaining attempt numbers. The result is
  the exception that leaves the function or the value returned, where \<open>None\<close> is the
  value Python returns when the loop ends without a \<open>return\<close>; with it comes the trace
  of attempts made and of \<open>asyncio.sleep(3)\<close> back-offs.
\<close>

fun attempt_loop ::
  "(nat \<Rightarrow> attempt_outcome) \<Rightarrow> string \<Rightarrow> nat list \<Rightarrow> (fault + row option) \<times> event list" where
  "attempt_loop outcome url [] = (Inr None, [])"
| "attempt_loop outcome url (attempt # rest) =
     (case try_body (outcome attempt) of
        Inl f \<Rightarrow> (Inl f, [Attempt attempt])
      | Inr (Inr r) \<Rightarrow> (Inr (Some r), [Attempt attempt])
      | Inr (Inl e) \<Rightarrow>
          if attempt = 1 then (Inr (Some (failure_record url)), [Attempt attempt])
          else (case attempt_loop outcome url rest of
                  (res, tr) \<Rightarrow> (res, Attempt attempt # Backoff 3 # tr)))"

definition scrape_company_details ::
  "(nat \<Rightarrow> attempt_outcome) \<Rightarrow> string \<Rightarrow> (fault + row option) \<times> event list" where
  "scrape_company_details outcome url = attempt_loop outcome url [0, 1]"


section \<open>Link discovery: \<open>scroll_and_extract_links\<close> (lines 13 to 42)\<close>

text \<open>
  The Python set \<open>company_links\<close> is modelled as a list without duplicates (\<open>set.add\<close>
  appends an element that is not yet there); the order in which \<open>list(company_links)\<close>
  enumerates it is not determined by the program and is supplied by the environment.
\<close>

definition set_add :: "'a \<Rightarrow> 'a list \<Rightarrow> 'a list" where
  "set_add x s = (if x \<in> set s then s else s @ [x])"

text \<open>
  The directory page: whether \<open>page.goto\<close> returns, the document seen on each round of
  the loop (\<open>None\<close> when a Playwright call of that round raises; nothing catches it), and
  the enumeration order of the set.
\<close>

record discovery_env =
  goto_ok :: bool
  dom_after :: "nat \<Rightarrow> document option"
  set_order :: "string list \<Rightarrow> string list"

text \<open>Lines 27 to 31.\<close>

fun add_links :: "element list \<Rightarrow> string list \<Rightarrow> string list" where
  "add_links [] company_links = company_links"
| "add_links (link # links) company_links =
     (case href link of
        None \<Rightarrow> add_links links company_links
      | Some h \<Rightarrow>
          if h \<noteq> [] \<and> py_in ''/companies/'' h
          then add_links links (set_add (''https://www.ycombinator.com'' @ h) company_links)
          else add_links links company_links)"

text \<open>Lines 24 to 39: the \<open>while\<close> loop, with its \<open>break\<close>.\<close>

function scroll_loop ::
  "(nat \<Rightarrow> document option) \<Rightarrow> int \<Rightarrow> string list \<Rightarrow> nat \<Rightarrow> fault + string list" where
  "scroll_loop page target_count company_links scroll_attempts =
     (if int (length company_links) < target_count \<and> scroll_attempts < 150 then
        (case page scroll_attempts of
           None \<Rightarrow> Inl DiscoveryFault
         | Some doc \<Rightarrow>
             (let found = add_links (locator_all (HrefPrefix ''a'' ''/companies/'') doc)
                            company_links
              in if target_count \<le> int (length found) then Inr found
                 else scroll_loop page target_count found (Suc scroll_attempts)))
      else Inr company_links)"
  by pat_completeness auto
termination
  by (relation "measure (\<lambda>(page, target_count, company_links, scroll_attempts).
                  150 - scroll_attempts)") auto

declare scroll_loop.simps [simp del]

definition scroll_and_extract_links :: "discovery_env \<Rightarrow> int \<Rightarrow> fault + string list" where
  "scroll_and_extract_links env target_count =
     (if \<not> goto_ok env then Inl DiscoveryFault
      else (case scroll_loop (dom_after env) target_count [] 0 of
              Inl f \<Rightarrow> Inl f
            | Inr company_links \<Rightarrow>
                Inr (py_slice_to target_count (set_order env company_links))))"


section \<open>The orchestrator: \<open>main\<close> (lines 126 to 169)\<close>

definition TARGET_COUNT :: int where
  "TARGET_COUNT = 500"

definition CONCURRENCY_LIMIT :: nat where
  "CONCURRENCY_LIMIT = 3"

definition BATCH_SIZE :: nat where
  "BATCH_SIZE = 50"

text \<open>
  \<open>DataFrame(rows).to_csv(path)\<close> either writes the file, or raises \<open>PermissionError\<close>, or
  raises something else.
\<close>

datatype write_outcome = Written | PermissionError | OtherWriteError

datatype message = Scraping nat | ProcessingBatch nat | PermissionWarning | Done string

text \<open>
  The state of a run: the list \<open>results\<close>, the files on disk (path to rows), every call of
  \<open>to_csv\<close> made so far with its path and its rows, and what \<open>main\<close> printed.
\<close>

record run_state =
  results :: "row list"
  files :: "string \<rightharpoonup> row list"
  to_csv_calls :: "(string \<times> row list) list"
  printed :: "message list"

text \<open>
  What the outside does during a run: the outcome of each attempt of each task (tasks
  numbered by the position of their URL), of the interim write after each batch
  (batches numbered from 0), of the final write, and the date.
\<close>

record run_env =
  task_outcome :: "nat \<Rightarrow> nat \<Rightarrow> attempt_outcome"
  interim_write :: "nat \<Rightarrow> write_outcome"
  final_write :: write_outcome
  today :: string

text \<open>
  \<open>await asyncio.gather(*tasks)\<close>: the results in the order of the tasks, or the exception
  of a task that raised.
\<close>

fun gather :: "(fault + 'a) list \<Rightarrow> fault + 'a list" where
  "gather [] = Inr []"
| "gather (t # ts) =
     (case t of
        Inl f \<Rightarrow> Inl f
      | Inr r \<Rightarrow> (case gather ts of Inl f \<Rightarrow> Inl f | Inr rs \<Rightarrow> Inr (r # rs)))"

text \<open>A call of \<open>to_csv\<close> with a given outcome: the file changes only when it is written.\<close>

definition to_csv :: "write_outcome \<Rightarrow> string \<Rightarrow> row list \<Rightarrow> run_state \<Rightarrow> run_state" where
  "to_csv outcome path rows st =
     (let called = st\<lparr>to_csv_calls := to_csv_calls st @ [(path, rows)]\<rparr>
      in if outcome = Written then called\<lparr>files := (files called)(path \<mapsto> rows)\<rparr>
         else called)"

text \<open>
  Lines 157 to 161: the interim save after batch number \<open>b\<close>. A \<open>PermissionError\<close> is
  caught and answered with a printed warning; any other exception leaves \<open>main\<close>.
\<close>

definition interim_save :: "run_env \<Rightarrow> nat \<Rightarrow> run_state \<Rightarrow> fault + run_state" where
  "interim_save env b st =
     (case interim_write env b of
        Written \<Rightarrow> Inr (to_csv Written ''yc_scraping_progress.csv'' (results st) st)
      | PermissionError \<Rightarrow>
          Inr ((to_csv PermissionError ''yc_scraping_progress.csv'' (results st) st)
                 \<lparr>printed := printed st @ [PermissionWarning]\<rparr>)
      | OtherWriteError \<Rightarrow> Inl WriteFault)"

text \<open>Lines 148 to 161: the body of the loop at offset \<open>i\<close>.\<close>

definition batch_step ::
  "run_env \<Rightarrow> nat \<Rightarrow> string list \<Rightarrow> nat \<Rightarrow> run_state \<Rightarrow> fault + run_state" where
  "batch_step env B urls i st =
     (let batch_urls = take B (drop i urls);
          st1 = st\<lparr>printed := printed st @ [ProcessingBatch (i div B + 1)]\<rparr>;
          tasks = map (\<lambda>(j, u). fst (scrape_company_details (task_outcome env j) u))
                    (enumerate i batch_urls)
      in case gather tasks of
           Inl f \<Rightarrow> Inl f
         | Inr batch_data \<Rightarrow>
             interim_save env (i div B)
               (st1\<lparr>results := results st1 @ map the (filter (\<lambda>r. r \<noteq> None) batch_data)\<rparr>))"

text \<open>Line 147: the loop \<open>for i in range(0, len(urls), BATCH_SIZE)\<close> from offset \<open>i\<close> on.\<close>

function main_loop ::
  "run_env \<Rightarrow> nat \<Rightarrow> string list \<Rightarrow> nat \<Rightarrow> run_state \<Rightarrow> fault + run_state" where
  "main_loop env B urls i st =
     (if 0 < B \<and> i < length urls then
        (case batch_step env B urls i st of
           Inl f \<Rightarrow> Inl f
         | Inr st' \<Rightarrow> main_loop env B urls (i + B) st')
      else Inr st)"
  by pat_completeness auto
termination
  by (relation "measure (\<lambda>(env, B, urls, i, st). length urls - i)") auto

declare main_loop.simps [simp del]

definition initial_state :: run_state where
  "initial_state = \<lparr>results = [], files = Map.empty, to_csv_calls = [], printed = []\<rparr>"

text \<open>
  Lines 142 to 161. \<open>range(0, len(urls), 0)\<close> raises \<open>ValueError\<close>.
\<close>

definition scrape_all :: "run_env \<Rightarrow> nat \<Rightarrow> string list \<Rightarrow> fault + run_state" where
  "scrape_all env B urls =
     (if B = 0 then Inl RangeStepZero
      else main_loop env B urls 0 (initial_state\<lparr>printed := [Scraping (length urls)]\<rparr>))"

text \<open>Lines 166 to 169: the final export; no handler surrounds it.\<close>

definition final_export :: "run_env \<Rightarrow> run_state \<Rightarrow> fault + run_state" where
  "final_export env st =
     (let final_filename = ''yc_scraping_'' @ today env @ ''.csv''
      in case final_write env of
           Written \<Rightarrow>
             Inr ((to_csv Written final_filename (results st) st)
                    \<lparr>printed := printed st @ [Done final_filename]\<rparr>)
         | PermissionError \<Rightarrow> Inl WriteFault
         | OtherWriteError \<Rightarrow> Inl WriteFault)"

text \<open>\<open>main\<close>, with the two constants it reads as parameters.\<close>

definition run :: "discovery_env \<Rightarrow> run_env \<Rightarrow> int \<Rightarrow> nat \<Rightarrow> fault + run_state" where
  "run denv env target_count B =
     (case scroll_and_extract_links denv target_count of
        Inl f \<Rightarrow> Inl f
      | Inr urls \<Rightarrow>
          (case scrape_all env B urls of
             Inl f \<Rightarrow> Inl f
           | Inr st \<Rightarrow> final_export env st))"

definition main :: "discovery_env \<Rightarrow> run_env \<Rightarrow> fault + run_state" where
  "main denv env = run denv env TARGET_COUNT BATCH_SIZE"


section \<open>The limiter: \<open>async with semaphore\<close> (lines 48, 49, 143, 152 and 153)\<close>

text \<open>
  The tasks of a batch run on one event loop and interleave at their \<open>await\<close>s. A task is
  \<open>Pending\<close> until \<open>async with semaphore\<close> admits it, \<open>Attempting n\<close> inside attempt \<open>n\<close>
  of the \<open>for\<close> loop, \<open>Retrying\<close> in the \<open>asyncio.sleep(3)\<close> between the two attempts, and
  \<open>Terminal\<close> once it has left the \<open>async with\<close> block. \<open>permits\<close> is the value of the
  \<open>asyncio.Semaphore\<close>: entering the block needs it positive and decrements it, leaving
  the block (by \<open>return\<close> or by an exception) increments it.
\<close>

datatype task_state = Pending | Attempting nat | Retrying | Terminal

record limiter =
  tasks :: "task_state list"
  permits :: nat

datatype action = Acquire nat | Succeed nat | Escape nat | Fail nat | Resume nat

definition set_task :: "nat \<Rightarrow> task_state \<Rightarrow> limiter \<Rightarrow> limiter" where
  "set_task i t s = s\<lparr>tasks := (tasks s)[i := t]\<rparr>"

definition release :: "limiter \<Rightarrow> limiter" where
  "release s = s\<lparr>permits := permits s + 1\<rparr>"

text \<open>One step of task \<open>i\<close>; \<open>None\<close> when the task cannot make that step now.\<close>

fun sched_step :: "action \<Rightarrow> limiter \<Rightarrow> limiter option" where
  "sched_step (Acquire i) s =
     (if i < length (tasks s) \<and> tasks s ! i = Pending \<and> 0 < permits s
      then Some (set_task i (Attempting 0) (s\<lparr>permits := permits s - 1\<rparr>))
      else None)"
| "sched_step (Succeed i) s =
     (if i < length (tasks s) then
        (case tasks s ! i of
           Attempting n \<Rightarrow> Some (release (set_task i Terminal s))
         | _ \<Rightarrow> None)
      else None)"
| "sched_step (Escape i) s =
     (if i < length (tasks s) then
        (case tasks s ! i of
           Attempting n \<Rightarrow> Some (release (set_task i Terminal s))
         | _ \<Rightarrow> None)
      else None)"
| "sched_step (Fail i) s =
     (if i < length (tasks s) then
        (case tasks s ! i of
           Attempting n \<Rightarrow>
             if n = 1 then Some (release (set_task i Terminal s))
             else Some (set_task i Retrying s)
         | _ \<Rightarrow> None)
      else None)"
| "sched_step (Resume i) s =
     (if i < length (tasks s) \<and> tasks s ! i = Retrying
      then Some (set_task i (Attempting 1) s)
      else None)"

fun run_schedule :: "action list \<Rightarrow> limiter \<Rightarrow> limiter option" where
  "run_schedule [] s = Some s"
| "run_schedule (a # as) s =
     (case sched_step a s of None \<Rightarrow> None | Some s' \<Rightarrow> run_schedule as s')"

text \<open>A batch of \<open>n\<close> tasks created over a semaphore of \<open>K\<close> permits.\<close>

definition batch_start :: "nat \<Rightarrow> nat \<Rightarrow> limiter" where
  "batch_start n K = \<lparr>tasks = replicate n Pending, permits = K\<rparr>"

fun in_attempt :: "task_state \<Rightarrow> bool" where
  "in_attempt (Attempting n) = True"
| "in_attempt _ = False"

fun holds_permit :: "task_state \<Rightarrow> bool" where
  "holds_permit (Attempting n) = True"
| "holds_permit Retrying = True"
| "holds_permit _ = False"


section \<open>Auxiliary facts\<close>

subsection \<open>String operations\<close>

lemma py_split_char_not_Nil: "py_split_char sep s \<noteq> []"
  by (induction s) (auto split: list.splits)

lemma py_split_char_first:
  "py_index0 (py_split_char sep s) = Some (takeWhile (\<lambda>c. c \<noteq> sep) s)"
proof (induction s)
  case Nil
  show ?case by (simp add: py_index0_def)
next
  case (Cons c cs)
  then show ?case
    by (cases "py_split_char sep cs") (auto simp: py_index0_def)
qed

lemma clean_link_eq:
  "clean_link link = Some (py_rstrip ''/'' (takeWhile (\<lambda>c. c \<noteq> CHR ''?'') link))"
  by (simp add: clean_link_def py_split_char_first)

lemma py_rstrip_idem: "py_rstrip chars (py_rstrip chars s) = py_rstrip chars s"
  by (simp add: py_rstrip_def)

lemma set_py_rstrip: "set (py_rstrip chars s) \<subseteq> set s"
proof -
  have "set (dropWhile (\<lambda>c. c \<in> set chars) (rev s)) \<subseteq> set (rev s)"
    by (rule set_dropWhileD [THEN subsetI])
  then show ?thesis by (simp add: py_rstrip_def)
qed

lemma takeWhile_no_sep:
  "sep \<notin> set s \<Longrightarrow> takeWhile (\<lambda>c. c \<noteq> sep) s = s"
  by (induction s) auto

lemma sep_notin_takeWhile: "sep \<notin> set (takeWhile (\<lambda>c. c \<noteq> sep) s)"
  by (induction s) auto

lemma py_in_sublist: "py_in sub s \<longleftrightarrow> sublist sub s"
  by (induction s) (auto simp: sublist_Cons_right)

lemma split_ws_sublist:
  "token \<in> set (split_ws cur s) \<Longrightarrow> sublist token (cur @ s)"
proof (induction s arbitrary: cur)
  case Nil
  then show ?case by (auto split: if_splits)
next
  case (Cons c cs)
  show ?case
  proof (cases "py_isspace c")
    case True
    with Cons.prems have "token = cur \<or> token \<in> set (split_ws [] cs)"
      by (auto split: if_splits)
    then show ?thesis
    proof
      assume "token = cur"
      then show ?thesis by simp
    next
      assume "token \<in> set (split_ws [] cs)"
      then have "sublist token cs" using Cons.IH [of "[]"] by simp
      then have "sublist token ((cur @ [c]) @ cs)"
        by (metis sublist_append)
      then show ?thesis by simp
    qed
  next
    case False
    with Cons.prems have "token \<in> set (split_ws (cur @ [c]) cs)" by simp
    then have "sublist token ((cur @ [c]) @ cs)" by (rule Cons.IH)
    then show ?thesis by simp
  qed
qed

lemma py_split_token_in: "token \<in> set (py_split s) \<Longrightarrow> py_in token s"
  using split_ws_sublist [of token "[]" s] by (simp add: py_split_def py_in_sublist)

lemma accepted_jane: "name_accepted ''Jane Doe''"
  by code_simp

lemma rejected_founders: "\<not> name_accepted ''Founders''"
  by code_simp

lemma rejected_four: "\<not> name_accepted ''A B C D''"
  by code_simp

subsection \<open>Extraction\<close>

lemma collect_links_returns: "\<exists>links. collect_links es acc = Inr links"
  by (induction es arbitrary: acc) (auto simp: clean_link_eq split: option.splits)

lemma text_or_default_hidden:
  "\<forall>e \<in> set (locator_all sel doc). \<not> visible e \<Longrightarrow> text_or_default sel doc = Inr ''N/A''"
  by (auto simp: text_or_default_def first_is_visible_def locator_first_def
           split: list.splits option.splits)

lemma text_or_default_returns: "\<exists>t. text_or_default sel doc = Inr t"
  by (auto simp: text_or_default_def first_is_visible_def first_inner_text_def
           split: option.splits)

lemma py_strip_NA: "py_strip ''N/A'' = ''N/A''"
  by code_simp

lemma extract_details_shape:
  assumes "locator_first (Tag ''h1'') doc = Some h"
  shows "\<exists>batch desc links.
           text_or_default batch_selector doc = Inr batch
         \<and> text_or_default desc_selector doc = Inr desc
         \<and> collect_links (locator_all linkedin_selector doc) [] = Inr links
         \<and> extract_details doc =
             Inr (success_record (inner_text h) batch desc
                    (collect_names name_selectors doc []) links)"
proof -
  obtain batch where b: "text_or_default batch_selector doc = Inr batch"
    using text_or_default_returns by blast
  obtain desc where d: "text_or_default desc_selector doc = Inr desc"
    using text_or_default_returns by blast
  obtain links where l: "collect_links (locator_all linkedin_selector doc) [] = Inr links"
    using collect_links_returns by blast
  have "first_inner_text (Tag ''h1'') doc = Inr (inner_text h)"
    using assms by (simp add: first_inner_text_def)
  then show ?thesis using b d l by (simp add: extract_details_def)
qed

lemma extract_details_keys:
  "extract_details doc = Inr r \<Longrightarrow>
   map fst r = [''Company Name'', ''Batch'', ''Short Description'', ''Founder Name(s)'',
                ''Founder LinkedIn URL(s)'']"
  by (auto simp: extract_details_def success_record_def split: sum.splits)

subsection \<open>The retry loop\<close>

lemma try_body_cases:
  obtains "try_body oc = Inl TaskFault"
  | e where "try_body oc = Inr (Inl e)"
  | r where "try_body oc = Inr (Inr r)"
proof (cases oc)
  case (Loaded doc)
  then show ?thesis using that by (cases "extract_details doc") (simp_all add: try_body_def)
qed (use that in \<open>simp_all add: try_body_def\<close>)

lemma try_body_fault: "try_body oc = Inl f \<longleftrightarrow> oc = Uncaught \<and> f = TaskFault"
  by (cases oc) (auto simp: try_body_def)

lemma try_body_success:
  "try_body oc = Inr (Inr r) \<longleftrightarrow> (\<exists>doc. oc = Loaded doc \<and> extract_details doc = Inr r)"
  by (cases oc) (auto simp: try_body_def)

lemma scrape_unfold:
  "scrape_company_details outcome url =
     (case try_body (outcome 0) of
        Inl f \<Rightarrow> (Inl f, [Attempt 0])
      | Inr (Inr r) \<Rightarrow> (Inr (Some r), [Attempt 0])
      | Inr (Inl e) \<Rightarrow>
          (case try_body (outcome 1) of
             Inl f \<Rightarrow> (Inl f, [Attempt 0, Backoff 3, Attempt 1])
           | Inr (Inr r) \<Rightarrow> (Inr (Some r), [Attempt 0, Backoff 3, Attempt 1])
           | Inr (Inl e') \<Rightarrow>
               (Inr (Some (failure_record url)), [Attempt 0, Backoff 3, Attempt 1])))"
  by (simp add: scrape_company_details_def split: sum.splits)

lemma scrape_never_None: "fst (scrape_company_details outcome url) \<noteq> Inr None"
  by (simp add: scrape_unfold split: sum.splits)

lemma scrape_no_fault:
  "outcome 0 \<noteq> Uncaught \<Longrightarrow> outcome 1 \<noteq> Uncaught \<Longrightarrow>
   \<exists>r. fst (scrape_company_details outcome url) = Inr (Some r)"
  by (auto simp: scrape_unfold try_body_fault split: sum.splits)

lemma scrape_success_cases:
  assumes "fst (scrape_company_details outcome url) = Inr (Some r)"
  obtains (first) "try_body (outcome 0) = Inr (Inr r)"
  | (second) e0 where "try_body (outcome 0) = Inr (Inl e0)" and "try_body (outcome 1) = Inr (Inr r)"
  | (failed) e0 e1 where "try_body (outcome 0) = Inr (Inl e0)"
      and "try_body (outcome 1) = Inr (Inl e1)" and "r = failure_record url"
proof (cases "outcome 0" rule: try_body_cases)
  case 1
  with assms show ?thesis by (simp add: scrape_unfold)
next
  case (3 r0)
  with assms have "r0 = r" by (simp add: scrape_unfold)
  with 3 first show ?thesis by simp
next
  case (2 e0)
  note zero = this
  show ?thesis
  proof (cases "outcome 1" rule: try_body_cases)
    case 1
    with assms zero show ?thesis by (simp add: scrape_unfold)
  next
    case (2 e1)
    with assms zero have "r = failure_record url" by (simp add: scrape_unfold)
    with zero 2 failed show ?thesis by simp
  next
    case (3 r1)
    with assms zero have "r1 = r" by (simp add: scrape_unfold)
    with zero 3 second show ?thesis by simp
  qed
qed

subsection \<open>The batch loop\<close>

lemma gather_map_Inr: "gather (map Inr rs) = Inr rs"
  by (induction rs) auto

lemma gather_Inr_D: "gather ts = Inr rs \<Longrightarrow> ts = map Inr rs"
  by (induction ts arbitrary: rs) (auto split: sum.splits)

lemma gather_returns:
  "\<forall>t \<in> set ts. \<exists>r. t = Inr r \<Longrightarrow> \<exists>rs. gather ts = Inr rs"
proof (induction ts)
  case Nil
  show ?case by simp
next
  case (Cons t ts)
  then obtain r rs where "t = Inr r" and "gather ts = Inr rs" by auto
  then show ?case by simp
qed

lemma results_to_csv [simp]: "results (to_csv oc path rows st) = results st"
  by (simp add: to_csv_def Let_def)

lemma printed_to_csv [simp]: "printed (to_csv oc path rows st) = printed st"
  by (simp add: to_csv_def Let_def)

lemma calls_to_csv [simp]:
  "to_csv_calls (to_csv oc path rows st) = to_csv_calls st @ [(path, rows)]"
  by (simp add: to_csv_def Let_def)

lemma interim_save_Inr:
  assumes "interim_save env b st = Inr st'"
  shows "results st' = results st"
    and "to_csv_calls st' = to_csv_calls st @ [(''yc_scraping_progress.csv'', results st)]"
  using assms by (auto simp: interim_save_def split: write_outcome.splits)

lemma interim_save_returns:
  "interim_write env b \<noteq> OtherWriteError \<Longrightarrow> \<exists>st'. interim_save env b st = Inr st'"
  by (cases "interim_write env b") (simp_all add: interim_save_def)

lemma batch_step_Inr:
  assumes "batch_step env B urls i st = Inr st'"
  obtains recs where "length recs = min B (length urls - i)"
    and "\<forall>k < length recs.
           fst (scrape_company_details (task_outcome env (i + k)) (urls ! (i + k)))
             = Inr (Some (recs ! k))"
    and "results st' = results st @ recs"
    and "to_csv_calls st' =
           to_csv_calls st @ [(''yc_scraping_progress.csv'', results st @ recs)]"
proof -
  let ?batch = "take B (drop i urls)"
  let ?f = "\<lambda>(j, u). fst (scrape_company_details (task_outcome env j) u)"
  let ?tasks = "map ?f (enumerate i ?batch)"
  from assms obtain batch_data where g: "gather ?tasks = Inr batch_data"
    and save: "interim_save env (i div B)
                 (st\<lparr>printed := printed st @ [ProcessingBatch (i div B + 1)],
                     results := results st @ map the (filter (\<lambda>r. r \<noteq> None) batch_data)\<rparr>)
               = Inr st'"
    by (auto simp: batch_step_def Let_def split: sum.splits)
  from g have tasks: "?tasks = map Inr batch_data" by (rule gather_Inr_D)
  then have len: "length batch_data = length ?batch"
    by (metis length_map length_enumerate)
  have nth: "?f (i + k, urls ! (i + k)) = Inr (batch_data ! k)" if "k < length batch_data" for k
  proof -
    from that len have k: "k < length ?batch" by simp
    then have "i \<le> length urls" by (simp add: less_diff_conv)
    with k have "enumerate i ?batch ! k = (i + k, urls ! (i + k))"
      by (simp add: nth_enumerate_eq)
    moreover have "?tasks ! k = Inr (batch_data ! k)"
      using tasks that by simp
    ultimately show ?thesis using k by simp
  qed
  have some: "\<forall>r \<in> set batch_data. r \<noteq> None"
  proof
    fix r assume "r \<in> set batch_data"
    then obtain k where "k < length batch_data" and "batch_data ! k = r"
      by (auto simp: in_set_conv_nth)
    with nth [of k] show "r \<noteq> None"
      using scrape_never_None [of "task_outcome env (i + k)" "urls ! (i + k)"] by auto
  qed
  then have keep: "filter (\<lambda>r. r \<noteq> None) batch_data = batch_data" by simp
  let ?recs = "map the batch_data"
  have 1: "length ?recs = min B (length urls - i)" using len by simp
  have 2: "\<forall>k < length ?recs.
           fst (scrape_company_details (task_outcome env (i + k)) (urls ! (i + k)))
             = Inr (Some (?recs ! k))"
  proof (intro allI impI)
    fix k assume k: "k < length ?recs"
    then have "batch_data ! k \<noteq> None" using some by simp
    then obtain r where r: "batch_data ! k = Some r" by blast
    with k have "?recs ! k = r" by simp
    moreover from nth [of k] k r
    have "fst (scrape_company_details (task_outcome env (i + k)) (urls ! (i + k))) = Inr (Some r)"
      by simp
    ultimately show "fst (scrape_company_details (task_outcome env (i + k)) (urls ! (i + k)))
             = Inr (Some (?recs ! k))" by (simp only:)
  qed
  from interim_save_Inr [OF save] keep
  have 3: "results st' = results st @ ?recs"
    and 4: "to_csv_calls st' =
           to_csv_calls st @ [(''yc_scraping_progress.csv'', results st @ ?recs)]"
    by simp_all
  from that [OF 1 2 3 4] show ?thesis .
qed

lemma batch_step_returns:
  assumes "\<forall>k < length urls. task_outcome env k 0 \<noteq> Uncaught \<and> task_outcome env k 1 \<noteq> Uncaught"
    and "interim_write env (i div B) \<noteq> OtherWriteError"
  shows "\<exists>st'. batch_step env B urls i st = Inr st'"
proof -
  let ?batch = "take B (drop i urls)"
  let ?f = "\<lambda>(j, u). fst (scrape_company_details (task_outcome env j) u)"
  have "\<forall>t \<in> set (map ?f (enumerate i ?batch)). \<exists>r. t = Inr r"
  proof
    fix t assume "t \<in> set (map ?f (enumerate i ?batch))"
    then obtain j u where ju: "(j, u) \<in> set (enumerate i ?batch)" and t: "t = ?f (j, u)"
      by auto
    from ju have "i \<le> j" and "j < i + length ?batch" by (auto simp: in_set_enumerate_eq)
    then have "j < length urls" by (simp add: min_def split: if_splits)
    with assms(1) have "task_outcome env j 0 \<noteq> Uncaught" "task_outcome env j 1 \<noteq> Uncaught"
      by simp_all
    from scrape_no_fault [OF this] t show "\<exists>r. t = Inr r" by auto
  qed
  then obtain batch_data where "gather (map ?f (enumerate i ?batch)) = Inr batch_data"
    using gather_returns by blast
  then show ?thesis
    using interim_save_returns [OF assms(2)] by (simp add: batch_step_def Let_def)
qed

lemma main_loop_returns:
  assumes "\<forall>k < length urls. task_outcome env k 0 \<noteq> Uncaught \<and> task_outcome env k 1 \<noteq> Uncaught"
    and "\<forall>b. interim_write env b \<noteq> OtherWriteError"
  shows "\<exists>st'. main_loop env B urls i st = Inr st'"
  using assms
proof (induction env B urls i st rule: main_loop.induct)
  case (1 env B urls i st)
  show ?case
  proof (cases "0 < B \<and> i < length urls")
    case False
    then show ?thesis by (auto simp: main_loop.simps [of env B urls i])
  next
    case True
    from batch_step_returns [of urls env i B st] "1.prems"
    obtain st1 where st1: "batch_step env B urls i st = Inr st1" by blast
    from "1.IH" [OF True st1] "1.prems"
    obtain st' where "main_loop env B urls (i + B) st1 = Inr st'" by blast
    with True st1 show ?thesis by (simp add: main_loop.simps [of env B urls i])
  qed
qed

lemma div_plus_self: "0 < B \<Longrightarrow> (m + B) div B = Suc (m div B)" for m B :: nat
  by (simp add: div_add_self2)

lemma ceil_step:
  fixes n B :: nat
  assumes "0 < B" and "0 < n"
  shows "(n + B - 1) div B = Suc ((n - B + B - 1) div B)"
proof (cases "n \<le> B")
  case True
  with assms have "(n + B - 1) div B = 1"
    by (simp add: div_nat_eqI)
  moreover from True assms have "(n - B + B - 1) div B = 0" by simp
  ultimately show ?thesis by simp
next
  case False
  then have a: "n - B + B - 1 = n - 1" and b: "n + B - 1 = (n - 1) + B"
    using assms by simp_all
  have "(n - 1 + B) div B = Suc ((n - 1) div B)"
    using assms(1) by (rule div_plus_self)
  then show ?thesis by (simp only: a b)
qed

lemma upt_Suc_shift: "[0..<Suc c] = 0 # map Suc [0..<c]"
  by (simp add: upt_conv_Cons map_Suc_upt del: upt_Suc)

lemma main_loop_Inr:
  assumes "0 < B" and "main_loop env B urls i st = Inr st'"
  shows "\<exists>recs. length recs = length urls - i
     \<and> (\<forall>k < length recs.
           fst (scrape_company_details (task_outcome env (i + k)) (urls ! (i + k)))
             = Inr (Some (recs ! k)))
     \<and> results st' = results st @ recs
     \<and> to_csv_calls st' =
         to_csv_calls st @
         map (\<lambda>m. (''yc_scraping_progress.csv'', results st @ take ((m + 1) * B) recs))
           [0..<(length urls - i + B - 1) div B]"
  using assms
proof (induction env B urls i st rule: main_loop.induct)
  case (1 env B urls i st)
  let ?path = "''yc_scraping_progress.csv''"
  let ?n = "length urls - i"
  show ?case
  proof (cases "i < length urls")
    case False
    with "1.prems" have "st' = st" by (simp add: main_loop.simps [of env B urls i])
    moreover from False "1.prems"(1) have "(?n + B - 1) div B = 0" by simp
    ultimately show ?thesis using False by simp
  next
    case True
    with "1.prems" obtain st1 where st1: "batch_step env B urls i st = Inr st1"
      and rest: "main_loop env B urls (i + B) st1 = Inr st'"
      by (auto simp: main_loop.simps [of env B urls i] split: sum.splits)
    from st1 obtain recs1 where
      l1: "length recs1 = min B ?n" and
      n1: "\<forall>k < length recs1.
             fst (scrape_company_details (task_outcome env (i + k)) (urls ! (i + k)))
               = Inr (Some (recs1 ! k))" and
      r1: "results st1 = results st @ recs1" and
      c1: "to_csv_calls st1 = to_csv_calls st @ [(?path, results st @ recs1)]"
      by (rule batch_step_Inr)
    from "1.IH" [OF _ st1 "1.prems"(1) rest] True "1.prems"(1)
    obtain recs2 where
      l2: "length recs2 = length urls - (i + B)" and
      n2: "\<forall>k < length recs2.
             fst (scrape_company_details (task_outcome env (i + B + k)) (urls ! (i + B + k)))
               = Inr (Some (recs2 ! k))" and
      r2: "results st' = results st1 @ recs2" and
      c2: "to_csv_calls st' = to_csv_calls st1 @
             map (\<lambda>m. (?path, results st1 @ take ((m + 1) * B) recs2))
               [0..<(length urls - (i + B) + B - 1) div B]"
      by blast
    let ?recs = "recs1 @ recs2"
    have full: "length recs1 = B" if "recs2 \<noteq> []"
    proof -
      from that have "0 < length recs2" by simp
      with l2 have "B \<le> length urls - i" by simp
      with l1 show ?thesis by simp
    qed
    have "min B ?n + (length urls - (i + B)) = ?n" by arith
    then have len: "length ?recs = ?n" using l1 l2 by simp
    have nth: "\<forall>k < length ?recs.
           fst (scrape_company_details (task_outcome env (i + k)) (urls ! (i + k)))
             = Inr (Some (?recs ! k))"
    proof (intro allI impI)
      fix k assume k: "k < length ?recs"
      show "fst (scrape_company_details (task_outcome env (i + k)) (urls ! (i + k)))
             = Inr (Some (?recs ! k))"
      proof (cases "k < length recs1")
        case True
        with n1 show ?thesis by (simp add: nth_append)
      next
        case False
        with k have k2: "k - length recs1 < length recs2" by simp
        then have "recs2 \<noteq> []" by auto
        then have B: "length recs1 = B" by (rule full)
        with False have "i + B + (k - B) = i + k" by simp
        with n2 k2 B have "fst (scrape_company_details (task_outcome env (i + k)) (urls ! (i + k)))
             = Inr (Some (recs2 ! (k - B)))" by (metis)
        with False B show ?thesis by (simp add: nth_append)
      qed
    qed
    have res: "results st' = results st @ ?recs" using r1 r2 by simp
    have head: "take B ?recs = recs1"
    proof (cases "recs2 = []")
      case True
      then show ?thesis using l1 by simp
    next
      case False
      then show ?thesis using full by simp
    qed
    have tail: "take ((m + 2) * B) ?recs = recs1 @ take ((m + 1) * B) recs2" for m
    proof (cases "recs2 = []")
      case True
      then show ?thesis using l1 by simp
    next
      case False
      then have "length recs1 = B" by (rule full)
      then show ?thesis by simp
    qed
    from True "1.prems"(1) have "(?n + B - 1) div B = Suc ((?n - B + B - 1) div B)"
      by (intro ceil_step) simp_all
    moreover have "?n - B = length urls - (i + B)" by simp
    ultimately have range: "[0..<(?n + B - 1) div B] =
        0 # map Suc [0..<(length urls - (i + B) + B - 1) div B]"
      by (simp only: upt_Suc_shift)
    have calls: "to_csv_calls st' = to_csv_calls st @
         map (\<lambda>m. (?path, results st @ take ((m + 1) * B) ?recs))
           [0..<(?n + B - 1) div B]"
      unfolding range c2 c1 r1 using head tail by (simp add: comp_def)
    from len nth res calls show ?thesis by blast
  qed
qed

lemma files_to_csv:
  "files (to_csv oc path rows st) =
     (if oc = Written then (files st)(path \<mapsto> rows) else files st)"
  by (simp add: to_csv_def Let_def)

lemma interim_save_files:
  assumes "interim_save env b st = Inr st'"
  shows "files st' =
     (if interim_write env b = Written
      then (files st)(''yc_scraping_progress.csv'' \<mapsto> results st) else files st)"
  using assms by (auto simp: interim_save_def files_to_csv split: write_outcome.splits)

lemma batch_step_files:
  assumes "batch_step env B urls i st = Inr st'"
  shows "files st' =
     (if interim_write env (i div B) = Written
      then (files st)(''yc_scraping_progress.csv'' \<mapsto> results st') else files st)"
proof -
  from assms obtain st2 where save: "interim_save env (i div B) st2 = Inr st'"
    and f: "files st2 = files st"
    by (auto simp: batch_step_def Let_def split: sum.splits)
  from interim_save_Inr(1) [OF save] interim_save_files [OF save] f
  show ?thesis by simp
qed

lemma main_loop_other_files:
  assumes "main_loop env B urls i st = Inr st'" and "path \<noteq> ''yc_scraping_progress.csv''"
  shows "files st' path = files st path"
  using assms
proof (induction env B urls i st rule: main_loop.induct)
  case (1 env B urls i st)
  show ?case
  proof (cases "0 < B \<and> i < length urls")
    case False
    with "1.prems" show ?thesis by (auto simp: main_loop.simps [of env B urls i])
  next
    case True
    with "1.prems" obtain st1 where st1: "batch_step env B urls i st = Inr st1"
      and rest: "main_loop env B urls (i + B) st1 = Inr st'"
      by (auto simp: main_loop.simps [of env B urls i] split: sum.splits)
    from "1.IH" [OF True st1 rest "1.prems"(2)] batch_step_files [OF st1] "1.prems"(2)
    show ?thesis by (simp split: if_splits)
  qed
qed

lemma main_loop_checkpoint_file:
  assumes "main_loop env B urls i st = Inr st'" and "\<forall>b. interim_write env b = Written"
    and "0 < B" and "i < length urls"
  shows "files st' ''yc_scraping_progress.csv'' = Some (results st')"
  using assms
proof (induction env B urls i st rule: main_loop.induct)
  case (1 env B urls i st)
  from "1.prems" obtain st1 where st1: "batch_step env B urls i st = Inr st1"
    and rest: "main_loop env B urls (i + B) st1 = Inr st'"
    by (auto simp: main_loop.simps [of env B urls i] split: sum.splits)
  from batch_step_files [OF st1] "1.prems"(2)
  have f1: "files st1 ''yc_scraping_progress.csv'' = Some (results st1)" by simp
  show ?case
  proof (cases "i + B < length urls")
    case True
    from "1.prems" have "0 < B \<and> i < length urls" by simp
    from "1.IH" [OF this st1 rest "1.prems"(2) "1.prems"(3) True] show ?thesis .
  next
    case False
    with rest have "st' = st1" by (simp add: main_loop.simps [of env B urls "i + B"])
    with f1 show ?thesis by simp
  qed
qed

subsection \<open>Runs that differ only in which interim writes are denied\<close>

lemma interim_save_same:
  assumes "interim_write env b = OtherWriteError \<longleftrightarrow> interim_write env' b = OtherWriteError"
    and "results st = results st'" and "to_csv_calls st = to_csv_calls st'"
  shows "rel_sum (=) (\<lambda>s t. results s = results t \<and> to_csv_calls s = to_csv_calls t)
           (interim_save env b st) (interim_save env' b st')"
  using assms
  by (cases "interim_write env b"; cases "interim_write env' b")
     (simp_all add: interim_save_def)

lemma batch_step_same:
  assumes "task_outcome env' = task_outcome env"
    and "interim_write env (i div B) = OtherWriteError
           \<longleftrightarrow> interim_write env' (i div B) = OtherWriteError"
    and "results st = results st'" and "to_csv_calls st = to_csv_calls st'"
  shows "rel_sum (=) (\<lambda>s t. results s = results t \<and> to_csv_calls s = to_csv_calls t)
           (batch_step env B urls i st) (batch_step env' B urls i st')"
proof -
  let ?tasks = "map (\<lambda>(j, u). fst (scrape_company_details (task_outcome env j) u))
                  (enumerate i (take B (drop i urls)))"
  show ?thesis
  proof (cases "gather ?tasks")
    case (Inl f)
    then show ?thesis using assms(1) by (simp add: batch_step_def Let_def)
  next
    case (Inr batch_data)
    then show ?thesis
      using assms(1) interim_save_same [OF assms(2)] assms(3,4)
      by (simp add: batch_step_def Let_def)
  qed
qed

lemma main_loop_same:
  assumes "task_outcome env' = task_outcome env"
    and "\<forall>b. interim_write env b = OtherWriteError \<longleftrightarrow> interim_write env' b = OtherWriteError"
    and "results st = results st'" and "to_csv_calls st = to_csv_calls st'"
  shows "rel_sum (=) (\<lambda>s t. results s = results t \<and> to_csv_calls s = to_csv_calls t)
           (main_loop env B urls i st) (main_loop env' B urls i st')"
  using assms
proof (induction env B urls i st arbitrary: st' rule: main_loop.induct)
  case (1 env B urls i st)
  show ?case
  proof (cases "0 < B \<and> i < length urls")
    case False
    with "1.prems" show ?thesis
      by (auto simp: main_loop.simps [of _ B urls i])
  next
    case True
    from "1.prems" have step: "rel_sum (=)
        (\<lambda>s t. results s = results t \<and> to_csv_calls s = to_csv_calls t)
        (batch_step env B urls i st) (batch_step env' B urls i st')"
      by (intro batch_step_same) simp_all
    show ?thesis
    proof (cases "batch_step env B urls i st")
      case (Inl f)
      with step have "batch_step env' B urls i st' = Inl f"
        by (cases "batch_step env' B urls i st'") simp_all
      with Inl True show ?thesis by (simp add: main_loop.simps [of _ B urls i])
    next
      case (Inr st1)
      with step obtain st1' where st1': "batch_step env' B urls i st' = Inr st1'"
        and r: "results st1 = results st1'" and c: "to_csv_calls st1 = to_csv_calls st1'"
        by (cases "batch_step env' B urls i st'") simp_all
      from "1.IH" [OF True Inr "1.prems"(1) "1.prems"(2) r c] Inr st1' True
      show ?thesis by (simp add: main_loop.simps [of _ B urls i])
    qed
  qed
qed

lemma final_export_same:
  assumes "final_write env' = final_write env" and "today env' = today env"
    and "results st = results st'" and "to_csv_calls st = to_csv_calls st'"
  shows "rel_sum (=) (\<lambda>s t. results s = results t \<and> to_csv_calls s = to_csv_calls t)
           (final_export env st) (final_export env' st')"
  using assms by (cases "final_write env") (simp_all add: final_export_def Let_def)

lemma run_same:
  assumes "task_outcome env' = task_outcome env"
    and "\<forall>b. interim_write env b = OtherWriteError \<longleftrightarrow> interim_write env' b = OtherWriteError"
    and "final_write env' = final_write env" and "today env' = today env"
  shows "rel_sum (=) (\<lambda>s t. results s = results t \<and> to_csv_calls s = to_csv_calls t)
           (run denv env target_count B) (run denv env' target_count B)"
proof (cases "scroll_and_extract_links denv target_count")
  case (Inl f)
  then show ?thesis by (simp add: run_def)
next
  case (Inr urls)
  let ?st0 = "initial_state\<lparr>printed := [Scraping (length urls)]\<rparr>"
  have loop: "rel_sum (=) (\<lambda>s t. results s = results t \<and> to_csv_calls s = to_csv_calls t)
           (scrape_all env B urls) (scrape_all env' B urls)"
    using main_loop_same [OF assms(1,2), of ?st0 ?st0 B urls 0]
    by (simp add: scrape_all_def)
  show ?thesis
  proof (cases "scrape_all env B urls")
    case (Inl f)
    with loop have "scrape_all env' B urls = Inl f"
      by (cases "scrape_all env' B urls") simp_all
    with Inl Inr show ?thesis by (simp add: run_def)
  next
    case inner: (Inr st)
    with loop obtain st' where st': "scrape_all env' B urls = Inr st'"
      and r: "results st = results st'" and c: "to_csv_calls st = to_csv_calls st'"
      by (cases "scrape_all env' B urls") simp_all
    from final_export_same [OF assms(3,4) r c] inner st' Inr
    show ?thesis by (simp add: run_def)
  qed
qed

lemma same_run_Inr:
  assumes "rel_sum (=) (\<lambda>s t. results s = results t \<and> to_csv_calls s = to_csv_calls t) x y"
    and "map_sum id (\<lambda>st. (results st, map fst (to_csv_calls st))) y = Inr (rows, paths)"
  shows "\<exists>st. x = Inr st \<and> results st = rows \<and> map fst (to_csv_calls st) = paths"
  using assms by (cases x; cases y) auto

subsection \<open>Link discovery\<close>

lemma profile_prefix:
  "prefix ''/companies/'' h \<Longrightarrow>
   prefix ''https://www.ycombinator.com/companies/'' (''https://www.ycombinator.com'' @ h)"
proof -
  assume "prefix ''/companies/'' h"
  then obtain rest where "h = ''/companies/'' @ rest" by (auto simp: prefix_def)
  then have "''https://www.ycombinator.com'' @ h
               = ''https://www.ycombinator.com/companies/'' @ rest" by simp
  then show ?thesis by (simp only: prefixI)
qed

lemma set_add_props:
  "distinct s \<Longrightarrow> distinct (set_add x s)"
  "set (set_add x s) = insert x (set s)"
  by (auto simp: set_add_def)

lemma add_links_invariant:
  assumes "distinct company_links"
    and "\<forall>u \<in> set company_links. prefix ''https://www.ycombinator.com/companies/'' u"
    and "\<forall>e \<in> set links. matches (HrefPrefix ''a'' ''/companies/'') e"
  shows "distinct (add_links links company_links)
       \<and> (\<forall>u \<in> set (add_links links company_links).
             prefix ''https://www.ycombinator.com/companies/'' u)"
  using assms
proof (induction links arbitrary: company_links)
  case Nil
  then show ?case by simp
next
  case (Cons link links)
  show ?case
  proof (cases "href link")
    case None
    with Cons show ?thesis by simp
  next
    case (Some h)
    with Cons.prems(3) have p: "prefix ''/companies/'' h" by simp
    let ?new = "set_add (''https://www.ycombinator.com'' @ h) company_links"
    have "distinct ?new" using Cons.prems(1) by (rule set_add_props(1))
    moreover have "\<forall>u \<in> set ?new. prefix ''https://www.ycombinator.com/companies/'' u"
      using Cons.prems(2) profile_prefix [OF p] by (simp add: set_add_props(2))
    moreover have "\<forall>e \<in> set links. matches (HrefPrefix ''a'' ''/companies/'') e"
      using Cons.prems(3) by simp
    ultimately have "distinct (add_links links ?new)
       \<and> (\<forall>u \<in> set (add_links links ?new).
             prefix ''https://www.ycombinator.com/companies/'' u)"
      by (rule Cons.IH)
    moreover have "distinct (add_links links company_links)
       \<and> (\<forall>u \<in> set (add_links links company_links).
             prefix ''https://www.ycombinator.com/companies/'' u)"
      using Cons.prems by (intro Cons.IH) simp_all
    ultimately show ?thesis using Some by simp
  qed
qed

lemma locator_all_matches: "\<forall>e \<in> set (locator_all sel doc). matches sel e"
  by (simp add: locator_all_def)

lemma scroll_loop_invariant:
  assumes "scroll_loop page target_count company_links scroll_attempts = Inr found"
    and "distinct company_links"
    and "\<forall>u \<in> set company_links. prefix ''https://www.ycombinator.com/companies/'' u"
  shows "distinct found
       \<and> (\<forall>u \<in> set found. prefix ''https://www.ycombinator.com/companies/'' u)"
  using assms
proof (induction page target_count company_links scroll_attempts rule: scroll_loop.induct)
  case (1 page target_count company_links scroll_attempts)
  show ?case
  proof (cases "int (length company_links) < target_count \<and> scroll_attempts < 150")
    case False
    with "1.prems" show ?thesis
      by (auto simp: scroll_loop.simps [of page target_count company_links scroll_attempts])
  next
    case True
    with "1.prems"(1) obtain doc where doc: "page scroll_attempts = Some doc"
      by (cases "page scroll_attempts")
         (auto simp: scroll_loop.simps [of page target_count company_links scroll_attempts])
    let ?next = "add_links (locator_all (HrefPrefix ''a'' ''/companies/'') doc) company_links"
    have inv: "distinct ?next
       \<and> (\<forall>u \<in> set ?next. prefix ''https://www.ycombinator.com/companies/'' u)"
      using "1.prems"(2,3) locator_all_matches by (rule add_links_invariant)
    show ?thesis
    proof (cases "target_count \<le> int (length ?next)")
      case enough: True
      with True doc "1.prems"(1) have "found = ?next"
        by (simp add: scroll_loop.simps [of page target_count company_links scroll_attempts])
      with inv show ?thesis by simp
    next
      case more: False
      with True doc "1.prems"(1)
      have "scroll_loop page target_count ?next (Suc scroll_attempts) = Inr found"
        by (simp add: scroll_loop.simps [of page target_count company_links scroll_attempts])
      with "1.IH" [OF True doc refl more] inv show ?thesis by blast
    qed
  qed
qed

lemma scroll_loop_returns:
  assumes "\<forall>k < 150. page k \<noteq> None"
  shows "\<exists>found. scroll_loop page target_count company_links scroll_attempts = Inr found"
  using assms
proof (induction page target_count company_links scroll_attempts rule: scroll_loop.induct)
  case (1 page target_count company_links scroll_attempts)
  show ?case
  proof (cases "int (length company_links) < target_count \<and> scroll_attempts < 150")
    case False
    then show ?thesis
      by (auto simp: scroll_loop.simps [of page target_count company_links scroll_attempts])
  next
    case True
    with "1.prems" obtain doc where doc: "page scroll_attempts = Some doc" by auto
    let ?next = "add_links (locator_all (HrefPrefix ''a'' ''/companies/'') doc) company_links"
    show ?thesis
    proof (cases "target_count \<le> int (length ?next)")
      case enough: True
      with True doc show ?thesis
        by (simp add: scroll_loop.simps [of page target_count company_links scroll_attempts])
    next
      case more: False
      from "1.IH" [OF True doc refl more "1.prems"] more True doc show ?thesis
        by (simp add: scroll_loop.simps [of page target_count company_links scroll_attempts])
    qed
  qed
qed

subsection \<open>The limiter\<close>

lemma filter_update_count:
  "i < length xs \<Longrightarrow>
   length (filter P (xs[i := y])) + (if P (xs ! i) then 1 else 0)
     = length (filter P xs) + (if P y then 1 else 0)"
proof (induction xs arbitrary: i)
  case Nil
  then show ?case by simp
next
  case (Cons x xs)
  show ?case
  proof (cases i)
    case 0
    then show ?thesis by simp
  next
    case (Suc j)
    with Cons.prems have "j < length xs" by simp
    from Cons.IH [OF this] Suc show ?thesis by simp
  qed
qed

lemma in_attempt_holds: "in_attempt t \<Longrightarrow> holds_permit t"
  by (cases t) simp_all

lemma attempting_le_holding:
  "length (filter in_attempt ts) \<le> length (filter holds_permit ts)"
  by (induction ts) (auto dest: in_attempt_holds)

lemma set_task_count:
  assumes "i < length (tasks s)"
  shows "length (filter holds_permit (tasks (set_task i t s)))
           + (if holds_permit (tasks s ! i) then 1 else 0)
         = length (filter holds_permit (tasks s)) + (if holds_permit t then 1 else 0)"
  using filter_update_count [OF assms, of holds_permit t] by (simp add: set_task_def)

lemma sched_step_conserves:
  assumes "sched_step a s = Some s'"
  shows "permits s' + length (filter holds_permit (tasks s'))
           = permits s + length (filter holds_permit (tasks s))"
proof (cases a)
  case (Acquire i)
  with assms have i: "i < length (tasks s)" and p: "tasks s ! i = Pending" and pos: "0 < permits s"
    and s': "s' = set_task i (Attempting 0) (s\<lparr>permits := permits s - 1\<rparr>)"
    by (auto split: if_splits)
  from set_task_count [of i "s\<lparr>permits := permits s - 1\<rparr>" "Attempting 0"] i p
  have "length (filter holds_permit (tasks s')) = length (filter holds_permit (tasks s)) + 1"
    by (simp add: s')
  moreover have "permits s' = permits s - 1" by (simp add: s' set_task_def)
  ultimately show ?thesis using pos by simp
next
  case (Succeed i)
  with assms obtain n where i: "i < length (tasks s)" and p: "tasks s ! i = Attempting n"
    and s': "s' = release (set_task i Terminal s)"
    by (auto split: if_splits task_state.splits)
  from set_task_count [of i s Terminal] i p
  have "length (filter holds_permit (tasks s')) + 1 = length (filter holds_permit (tasks s))"
    by (simp add: s' release_def)
  moreover have "permits s' = permits s + 1" by (simp add: s' set_task_def release_def)
  ultimately show ?thesis by simp
next
  case (Escape i)
  with assms obtain n where i: "i < length (tasks s)" and p: "tasks s ! i = Attempting n"
    and s': "s' = release (set_task i Terminal s)"
    by (auto split: if_splits task_state.splits)
  from set_task_count [of i s Terminal] i p
  have "length (filter holds_permit (tasks s')) + 1 = length (filter holds_permit (tasks s))"
    by (simp add: s' release_def)
  moreover have "permits s' = permits s + 1" by (simp add: s' set_task_def release_def)
  ultimately show ?thesis by simp
next
  case (Fail i)
  with assms obtain n where i: "i < length (tasks s)" and p: "tasks s ! i = Attempting n"
    and s': "s' = (if n = 1 then release (set_task i Terminal s) else set_task i Retrying s)"
    by (auto split: if_splits task_state.splits)
  show ?thesis
  proof (cases "n = Suc 0")
    case True
    from set_task_count [of i s Terminal] i p
    have "length (filter holds_permit (tasks s')) + 1 = length (filter holds_permit (tasks s))"
      by (simp add: s' True release_def)
    moreover have "permits s' = permits s + 1" by (simp add: s' True set_task_def release_def)
    ultimately show ?thesis by simp
  next
    case False
    from set_task_count [of i s Retrying] i p
    have "length (filter holds_permit (tasks s')) = length (filter holds_permit (tasks s))"
      by (simp add: s' False)
    moreover have "permits s' = permits s" by (simp add: s' False set_task_def)
    ultimately show ?thesis by simp
  qed
next
  case (Resume i)
  with assms have i: "i < length (tasks s)" and p: "tasks s ! i = Retrying"
    and s': "s' = set_task i (Attempting 1) s"
    by (auto split: if_splits)
  from set_task_count [of i s "Attempting 1"] i p
  have "length (filter holds_permit (tasks s')) = length (filter holds_permit (tasks s))"
    by (simp add: s')
  moreover have "permits s' = permits s" by (simp add: s' set_task_def)
  ultimately show ?thesis by simp
qed

lemma run_schedule_conserves:
  "run_schedule acts s = Some s' \<Longrightarrow>
   permits s' + length (filter holds_permit (tasks s'))
     = permits s + length (filter holds_permit (tasks s))"
proof (induction acts arbitrary: s)
  case Nil
  then show ?case by simp
next
  case (Cons a acts)
  then obtain s1 where 1: "sched_step a s = Some s1" and 2: "run_schedule acts s1 = Some s'"
    by (auto split: option.splits)
  from Cons.IH [OF 2] sched_step_conserves [OF 1] show ?case by simp
qed

lemma batch_start_holders: "length (filter holds_permit (tasks (batch_start n K))) = 0"
  by (simp add: batch_start_def)

lemma sched_step_release_only_terminal:
  assumes "sched_step a s = Some s'"
  shows "(\<forall>i < length (tasks s).
            holds_permit (tasks s ! i) \<and> \<not> holds_permit (tasks s' ! i)
              \<longrightarrow> tasks s' ! i = Terminal \<and> permits s' = permits s + 1)
       \<and> (permits s < permits s'
            \<longrightarrow> (\<exists>i < length (tasks s). holds_permit (tasks s ! i) \<and> tasks s' ! i = Terminal))"
proof (cases a)
  case (Acquire j)
  with assms have j: "j < length (tasks s)" and p: "tasks s ! j = Pending"
    and s': "s' = set_task j (Attempting 0) (s\<lparr>permits := permits s - 1\<rparr>)"
    by (auto split: if_splits)
  have "tasks s' ! i = (if i = j then Attempting 0 else tasks s ! i)" if "i < length (tasks s)" for i
    using that by (simp add: s' set_task_def nth_list_update)
  moreover have "permits s' \<le> permits s" by (simp add: s' set_task_def)
  ultimately show ?thesis using p by auto
next
  case (Succeed j)
  with assms obtain n where j: "j < length (tasks s)" and p: "tasks s ! j = Attempting n"
    and s': "s' = release (set_task j Terminal s)"
    by (auto split: if_splits task_state.splits)
  have "tasks s' ! i = (if i = j then Terminal else tasks s ! i)" if "i < length (tasks s)" for i
    using that by (simp add: s' set_task_def release_def nth_list_update)
  moreover have "permits s' = permits s + 1" by (simp add: s' set_task_def release_def)
  ultimately show ?thesis using p j by auto
next
  case (Escape j)
  with assms obtain n where j: "j < length (tasks s)" and p: "tasks s ! j = Attempting n"
    and s': "s' = release (set_task j Terminal s)"
    by (auto split: if_splits task_state.splits)
  have "tasks s' ! i = (if i = j then Terminal else tasks s ! i)" if "i < length (tasks s)" for i
    using that by (simp add: s' set_task_def release_def nth_list_update)
  moreover have "permits s' = permits s + 1" by (simp add: s' set_task_def release_def)
  ultimately show ?thesis using p j by auto
next
  case (Fail j)
  with assms obtain n where j: "j < length (tasks s)" and p: "tasks s ! j = Attempting n"
    and s': "s' = (if n = 1 then release (set_task j Terminal s) else set_task j Retrying s)"
    by (auto split: if_splits task_state.splits)
  show ?thesis
  proof (cases "n = Suc 0")
    case True
    have "tasks s' ! i = (if i = j then Terminal else tasks s ! i)" if "i < length (tasks s)" for i
      using that by (simp add: s' True set_task_def release_def nth_list_update)
    moreover have "permits s' = permits s + 1" by (simp add: s' True set_task_def release_def)
    ultimately show ?thesis using p j by auto
  next
    case False
    have "tasks s' ! i = (if i = j then Retrying else tasks s ! i)" if "i < length (tasks s)" for i
      using that by (simp add: s' False set_task_def nth_list_update)
    moreover have "permits s' = permits s" by (simp add: s' False set_task_def)
    ultimately show ?thesis using p by auto
  qed
next
  case (Resume j)
  with assms have j: "j < length (tasks s)" and p: "tasks s ! j = Retrying"
    and s': "s' = set_task j (Attempting 1) s"
    by (auto split: if_splits)
  have "tasks s' ! i = (if i = j then Attempting 1 else tasks s ! i)" if "i < length (tasks s)" for i
    using that by (simp add: s' set_task_def nth_list_update)
  moreover have "permits s' = permits s" by (simp add: s' set_task_def)
  ultimately show ?thesis using p by auto
qed


section \<open>Claims\<close>

text \<open>
  C8. Normalising a LinkedIn URL (everything from the first \<open>?\<close> on removed, then the
  trailing \<open>/\<close> characters removed) is idempotent: on every string the clean-up returns
  a value, and cleaning that value again returns it unchanged.
\<close>

theorem clean_link_idempotent:
  "\<exists>once. clean_link link = Some once \<and> clean_link once = Some once"
proof -
  let ?cut = "takeWhile (\<lambda>c. c \<noteq> CHR ''?'') link"
  let ?once = "py_rstrip ''/'' ?cut"
  have "CHR ''?'' \<notin> set ?once"
    using set_py_rstrip [of "''/''" ?cut] sep_notin_takeWhile [of "CHR ''?''" link]
    by blast
  then have cut_again: "takeWhile (\<lambda>c. c \<noteq> CHR ''?'') ?once = ?once"
    by (rule takeWhile_no_sep)
  have "clean_link ?once = Some (py_rstrip ''/'' ?once)"
    unfolding clean_link_eq cut_again ..
  then have "clean_link ?once = Some ?once"
    by (simp only: py_rstrip_idem)
  moreover have "clean_link link = Some ?once"
    by (rule clean_link_eq)
  ultimately show ?thesis
    by blast
qed


text \<open>
  C4. The founder-name filter accepts a candidate text only if its whitespace-split
  tokens number one to three and none of them is a word of the blacklist. \<open>Jane Doe\<close>
  is accepted; \<open>Founders\<close> and \<open>A B C D\<close> are rejected.
\<close>

theorem name_filter_sound:
  "(name_accepted candidate \<longrightarrow>
      1 \<le> length (py_split candidate) \<and> length (py_split candidate) \<le> 3
      \<and> (\<forall>token \<in> set (py_split candidate). token \<notin> set blacklist))
   \<and> name_accepted ''Jane Doe''
   \<and> \<not> name_accepted ''Founders''
   \<and> \<not> name_accepted ''A B C D''"
proof -
  have "token \<notin> set blacklist"
    if acc: "name_accepted candidate" and tok: "token \<in> set (py_split candidate)" for token
  proof
    assume "token \<in> set blacklist"
    moreover have "py_in token candidate" using tok by (rule py_split_token_in)
    ultimately have "list_ex (\<lambda>word. py_in word candidate) blacklist"
      unfolding list_ex_iff by blast
    with acc show False by (simp add: name_accepted_def)
  qed
  moreover have "name_accepted candidate \<Longrightarrow>
      1 \<le> length (py_split candidate) \<and> length (py_split candidate) \<le> 3"
    by (simp add: name_accepted_def Suc_le_eq)
  ultimately show ?thesis
    using accepted_jane rejected_founders rejected_four by blast
qed

theorem name_filter_sound_witness:
  "name_accepted ''Jane Doe'' \<and> py_split ''Jane Doe'' = [''Jane'', ''Doe'']
   \<and> ''Jane'' \<notin> set blacklist \<and> ''Doe'' \<notin> set blacklist"
proof -
  have "py_split ''Jane Doe'' = [''Jane'', ''Doe'']" by code_simp
  then show ?thesis using name_filter_sound [of "''Jane Doe''"] by simp
qed


text \<open>
  C2 (as amended). When both attempts of a URL fail inside the \<open>try\<close> block (routing,
  navigation or extraction raises an \<open>Exception\<close>, which the handler of line 120
  catches), \<open>scrape_company_details\<close> makes exactly two attempts with one
  \<open>asyncio.sleep(3)\<close> between them and returns the failure dictionary with
  \<open>Company Name\<close> \<open>Error\<close> and the URL; no exception leaves it.
\<close>

theorem two_failed_attempts:
  assumes "try_body (outcome 0) = Inr (Inl e0)" and "try_body (outcome 1) = Inr (Inl e1)"
  shows "scrape_company_details outcome url =
           (Inr (Some [(''Company Name'', ''Error''), (''URL'', url)]),
            [Attempt 0, Backoff 3, Attempt 1])"
  using assms by (simp add: scrape_unfold failure_record_def)

theorem two_failed_attempts_witness:
  "try_body Caught = Inr (Inl PlaywrightError)
   \<and> scrape_company_details (\<lambda>n. Caught) ''https://www.ycombinator.com/companies/acme'' =
       (Inr (Some [(''Company Name'', ''Error''),
                   (''URL'', ''https://www.ycombinator.com/companies/acme'')]),
        [Attempt 0, Backoff 3, Attempt 1])"
proof -
  have h: "try_body Caught = Inr (Inl PlaywrightError)" by (simp add: try_body_def)
  show ?thesis
    using h two_failed_attempts [of "\<lambda>n. Caught" PlaywrightError PlaywrightError
                                  "''https://www.ycombinator.com/companies/acme''"]
    by simp
qed


text \<open>
  C2 as stated fails: \<open>context.new_page()\<close> on line 50 is inside the attempt loop but
  outside the \<open>try\<close> block. When it raises on the first attempt, the attempt fails, no
  second attempt is made, no failure dictionary is returned, and the exception leaves
  the function; \<open>asyncio.gather\<close> on line 153 passes it on to \<open>main\<close>.
\<close>

theorem two_failed_attempts_counterexample:
  "try_body Uncaught = Inl TaskFault
   \<and> scrape_company_details (\<lambda>n. Uncaught) ''https://www.ycombinator.com/companies/acme''
       = (Inl TaskFault, [Attempt 0])
   \<and> map_sum id results
        (scrape_all
           \<lparr>task_outcome = (\<lambda>k a. Uncaught), interim_write = (\<lambda>b. Written),
            final_write = Written, today = ''20240101''\<rparr>
           50 [''https://www.ycombinator.com/companies/acme''])
       = Inl TaskFault"
  by code_simp


text \<open>
  C7 (as amended). When the page heading resolves and no element matching the batch
  selector (respectively the description selector) is visible, the \<open>Batch\<close>
  (respectively \<open>Short Description\<close>) field of the extracted record is the string \<open>N/A\<close>;
  the record is produced all the same, with its name and founder fields as usual.
\<close>

theorem sentinel_when_not_visible:
  assumes "locator_first (Tag ''h1'') doc = Some h"
  shows "\<exists>r links. extract_details doc = Inr r
     \<and> collect_links (locator_all linkedin_selector doc) [] = Inr links
     \<and> map_of r ''Company Name'' = Some (py_strip (inner_text h))
     \<and> map_of r ''Founder Name(s)'' = Some (py_join '', '' (collect_names name_selectors doc []))
     \<and> map_of r ''Founder LinkedIn URL(s)'' = Some (py_join '', '' links)
     \<and> ((\<forall>e \<in> set (locator_all batch_selector doc). \<not> visible e)
          \<longrightarrow> map_of r ''Batch'' = Some ''N/A'')
     \<and> ((\<forall>e \<in> set (locator_all desc_selector doc). \<not> visible e)
          \<longrightarrow> map_of r ''Short Description'' = Some ''N/A'')"
proof -
  from extract_details_shape [OF assms] obtain batch desc links where
    b: "text_or_default batch_selector doc = Inr batch" and
    d: "text_or_default desc_selector doc = Inr desc" and
    l: "collect_links (locator_all linkedin_selector doc) [] = Inr links" and
    r: "extract_details doc =
          Inr (success_record (inner_text h) batch desc
                 (collect_names name_selectors doc []) links)"
    by blast
  let ?r = "success_record (inner_text h) batch desc (collect_names name_selectors doc []) links"
  have "(\<forall>e \<in> set (locator_all batch_selector doc). \<not> visible e) \<longrightarrow> batch = ''N/A''"
    using text_or_default_hidden [of batch_selector doc] b by auto
  then have 1: "(\<forall>e \<in> set (locator_all batch_selector doc). \<not> visible e)
          \<longrightarrow> map_of ?r ''Batch'' = Some ''N/A''"
    by (auto simp: success_record_def py_strip_NA)
  have "(\<forall>e \<in> set (locator_all desc_selector doc). \<not> visible e) \<longrightarrow> desc = ''N/A''"
    using text_or_default_hidden [of desc_selector doc] d by auto
  then have 2: "(\<forall>e \<in> set (locator_all desc_selector doc). \<not> visible e)
          \<longrightarrow> map_of ?r ''Short Description'' = Some ''N/A''"
    by (auto simp: success_record_def py_strip_NA)
  have 3: "map_of ?r ''Company Name'' = Some (py_strip (inner_text h))"
    by (simp add: success_record_def)
  have 4: "map_of ?r ''Founder Name(s)'' = Some (py_join '', '' (collect_names name_selectors doc []))"
    by (simp add: success_record_def)
  have 5: "map_of ?r ''Founder LinkedIn URL(s)'' = Some (py_join '', '' links)"
    by (simp add: success_record_def)
  show ?thesis using r l 1 2 3 4 5 by blast
qed

theorem sentinel_when_not_visible_witness:
  "locator_first (Tag ''h1'')
     [\<lparr>tag = ''h1'', classes = [], href = None, inner_text = ''Acme'', visible = True\<rparr>,
      \<lparr>tag = ''a'', classes = [], href = Some ''/companies?batch=W24'', inner_text = ''W24'',
       visible = False\<rparr>]
     = Some \<lparr>tag = ''h1'', classes = [], href = None, inner_text = ''Acme'', visible = True\<rparr>
   \<and> map visible (locator_all batch_selector
          [\<lparr>tag = ''h1'', classes = [], href = None, inner_text = ''Acme'', visible = True\<rparr>,
           \<lparr>tag = ''a'', classes = [], href = Some ''/companies?batch=W24'', inner_text = ''W24'',
            visible = False\<rparr>]) = [False]
   \<and> (\<exists>r. extract_details
          [\<lparr>tag = ''h1'', classes = [], href = None, inner_text = ''Acme'', visible = True\<rparr>,
           \<lparr>tag = ''a'', classes = [], href = Some ''/companies?batch=W24'', inner_text = ''W24'',
            visible = False\<rparr>] = Inr r
        \<and> map_of r ''Company Name'' = Some ''Acme''
        \<and> map_of r ''Batch'' = Some ''N/A'')"
proof -
  let ?h = "\<lparr>tag = ''h1'', classes = [], href = None, inner_text = ''Acme'', visible = True\<rparr>"
  let ?b = "\<lparr>tag = ''a'', classes = [], href = Some ''/companies?batch=W24'',
             inner_text = ''W24'', visible = False\<rparr>"
  have h: "locator_first (Tag ''h1'') [?h, ?b] = Some ?h"
    by code_simp
  have all: "locator_all batch_selector [?h, ?b] = [?b]"
    by code_simp
  have strip: "py_strip ''Acme'' = ''Acme''"
    by code_simp
  show ?thesis
    using sentinel_when_not_visible [OF h] h all strip by auto
qed


text \<open>
  C7 as stated fails: on a page with a heading and neither a batch link nor a description
  element the two fields hold \<open>N/A\<close>, which is not the string \<open>not available\<close>.
\<close>

theorem sentinel_counterexample:
  "locator_all batch_selector
     [\<lparr>tag = ''h1'', classes = [], href = None, inner_text = ''Acme'', visible = True\<rparr>] = []
   \<and> locator_all desc_selector
     [\<lparr>tag = ''h1'', classes = [], href = None, inner_text = ''Acme'', visible = True\<rparr>] = []
   \<and> extract_details
     [\<lparr>tag = ''h1'', classes = [], href = None, inner_text = ''Acme'', visible = True\<rparr>] =
       Inr [(''Company Name'', ''Acme''), (''Batch'', ''N/A''), (''Short Description'', ''N/A''),
            (''Founder Name(s)'', []), (''Founder LinkedIn URL(s)'', [])]
   \<and> ''N/A'' \<noteq> ''not available''"
  by code_simp


text \<open>
  C10. A record returned by \<open>scrape_company_details\<close> either has exactly the five keys
  \<open>Company Name\<close>, \<open>Batch\<close>, \<open>Short Description\<close>, \<open>Founder Name(s)\<close> and
  \<open>Founder LinkedIn URL(s)\<close>, no \<open>URL\<close> key, and is the same whatever URL the function was
  given, or it is the failure dictionary of \<open>Company Name\<close> \<open>Error\<close> and \<open>URL\<close>.
\<close>

theorem record_shapes:
  assumes "fst (scrape_company_details outcome url) = Inr (Some r)"
  shows "(map fst r = [''Company Name'', ''Batch'', ''Short Description'',
                       ''Founder Name(s)'', ''Founder LinkedIn URL(s)'']
          \<and> (\<forall>other. fst (scrape_company_details outcome other) = Inr (Some r)))
       \<or> r = [(''Company Name'', ''Error''), (''URL'', url)]"
  using assms
proof (cases rule: scrape_success_cases)
  case first
  then have "\<forall>other. fst (scrape_company_details outcome other) = Inr (Some r)"
    by (simp add: scrape_unfold)
  moreover from first have "\<exists>doc. extract_details doc = Inr r"
    by (auto simp: try_body_success)
  ultimately show ?thesis using extract_details_keys by blast
next
  case (second e0)
  then have "\<forall>other. fst (scrape_company_details outcome other) = Inr (Some r)"
    by (simp add: scrape_unfold)
  moreover from second have "\<exists>doc. extract_details doc = Inr r"
    by (auto simp: try_body_success)
  ultimately show ?thesis using extract_details_keys by blast
next
  case (failed e0 e1)
  then show ?thesis by (simp add: failure_record_def)
qed

theorem record_shapes_witness:
  "fst (scrape_company_details
          (\<lambda>n. if n = 0 then Caught
                else Loaded [\<lparr>tag = ''h1'', classes = [], href = None, inner_text = ''Acme'',
                              visible = True\<rparr>])
          ''https://www.ycombinator.com/companies/acme'') =
     Inr (Some [(''Company Name'', ''Acme''), (''Batch'', ''N/A''), (''Short Description'', ''N/A''),
                (''Founder Name(s)'', []), (''Founder LinkedIn URL(s)'', [])])
   \<and> fst (scrape_company_details (\<lambda>n. Caught) ''https://www.ycombinator.com/companies/acme'') =
     Inr (Some [(''Company Name'', ''Error''),
                (''URL'', ''https://www.ycombinator.com/companies/acme'')])"
proof -
  let ?h = "\<lparr>tag = ''h1'', classes = [], href = None, inner_text = ''Acme'', visible = True\<rparr>"
  let ?u = "''https://www.ycombinator.com/companies/acme''"
  let ?r = "[(''Company Name'', ''Acme''), (''Batch'', ''N/A''), (''Short Description'', ''N/A''),
             (''Founder Name(s)'', []), (''Founder LinkedIn URL(s)'', [])]"
  have ok: "fst (scrape_company_details (\<lambda>n. if n = 0 then Caught else Loaded [?h]) ?u)
              = Inr (Some ?r)"
    by code_simp
  have bad: "fst (scrape_company_details (\<lambda>n. Caught) ?u) = Inr (Some (failure_record ?u))"
    by code_simp
  show ?thesis
    using record_shapes [OF ok] record_shapes [OF bad] ok bad
    by (simp add: failure_record_def)
qed


text \<open>
  C1. Processing a list of \<open>N\<close> URLs (lines 143 to 161) leaves exactly \<open>N\<close> records in
  \<open>results\<close>: the record at position \<open>k\<close> is the one \<open>scrape_company_details\<close> returned
  for the URL at position \<open>k\<close>, a success or a failure dictionary, none dropped and none
  doubled. The processing runs to its end whenever no exception escapes a task or an
  interim write.
\<close>

theorem one_record_per_url:
  "(\<forall>st. scrape_all env B urls = Inr st \<longrightarrow>
        length (results st) = length urls
      \<and> (\<forall>k < length urls.
            fst (scrape_company_details (task_outcome env k) (urls ! k))
              = Inr (Some (results st ! k))))
   \<and> (0 < B
      \<and> (\<forall>k < length urls. task_outcome env k 0 \<noteq> Uncaught \<and> task_outcome env k 1 \<noteq> Uncaught)
      \<and> (\<forall>b. interim_write env b \<noteq> OtherWriteError)
      \<longrightarrow> (\<exists>st. scrape_all env B urls = Inr st))"
proof (intro conjI allI impI)
  fix st assume run: "scrape_all env B urls = Inr st"
  then have B: "0 < B" by (auto simp: scrape_all_def split: if_splits)
  let ?st0 = "initial_state\<lparr>printed := [Scraping (length urls)]\<rparr>"
  from run B have "main_loop env B urls 0 ?st0 = Inr st" by (simp add: scrape_all_def)
  from main_loop_Inr [OF B this] obtain recs where
    len: "length recs = length urls" and
    nth: "\<forall>k < length recs.
           fst (scrape_company_details (task_outcome env k) (urls ! k)) = Inr (Some (recs ! k))" and
    res: "results st = recs"
    by (auto simp: initial_state_def)
  from len res show "length (results st) = length urls" by simp
  fix k assume "k < length urls"
  with len nth res show "fst (scrape_company_details (task_outcome env k) (urls ! k))
              = Inr (Some (results st ! k))" by simp
next
  assume a: "0 < B
      \<and> (\<forall>k < length urls. task_outcome env k 0 \<noteq> Uncaught \<and> task_outcome env k 1 \<noteq> Uncaught)
      \<and> (\<forall>b. interim_write env b \<noteq> OtherWriteError)"
  then have "\<exists>st. main_loop env B urls 0 (initial_state\<lparr>printed := [Scraping (length urls)]\<rparr>) = Inr st"
    by (intro main_loop_returns) simp_all
  with a show "\<exists>st. scrape_all env B urls = Inr st" by (simp add: scrape_all_def)
qed

theorem one_record_per_url_witness:
  "\<exists>st. scrape_all
           \<lparr>task_outcome = (\<lambda>k a. if k = 1 then Caught else Loaded []),
            interim_write = (\<lambda>b. if b = 0 then PermissionError else Written),
            final_write = Written, today = ''20240101''\<rparr>
           2 [''u0'', ''u1'', ''u2'', ''u3'', ''u4''] = Inr st
       \<and> length (results st) = 5
       \<and> results st ! 1 = [(''Company Name'', ''Error''), (''URL'', ''u1'')]"
proof -
  let ?env = "\<lparr>task_outcome = (\<lambda>k a. if k = 1 then Caught else Loaded []),
            interim_write = (\<lambda>b. if b = 0 then PermissionError else Written),
            final_write = Written, today = ''20240101''\<rparr>"
  let ?urls = "[''u0'', ''u1'', ''u2'', ''u3'', ''u4'']"
  have "\<exists>st. scrape_all ?env 2 ?urls = Inr st"
    using one_record_per_url [of ?env 2 ?urls] by simp
  then obtain st where st: "scrape_all ?env 2 ?urls = Inr st" ..
  have one: "fst (scrape_company_details (task_outcome ?env 1) (?urls ! 1))
               = Inr (Some [(''Company Name'', ''Error''), (''URL'', ''u1'')])"
    by (simp add: scrape_unfold try_body_def failure_record_def)
  from st one_record_per_url [of ?env 2 ?urls]
  have len: "length (results st) = 5"
    and nth: "\<forall>k<5. fst (scrape_company_details (task_outcome ?env k) (?urls ! k))
                = Inr (Some (results st ! k))"
    by simp_all
  from nth [THEN spec, of 1]
  have "fst (scrape_company_details (task_outcome ?env 1) (?urls ! 1))
                = Inr (Some (results st ! 1))" by simp
  with one have "results st ! 1 = [(''Company Name'', ''Error''), (''URL'', ''u1'')]"
    by simp
  with st len show ?thesis by blast
qed


text \<open>
  C5. A run over \<open>N\<close> URLs with batch size \<open>B\<close> attempts exactly \<open>ceil(N/B)\<close> interim
  writes; the write after batch \<open>m\<close> (counted from 0) goes to the fixed path
  \<open>yc_scraping_progress.csv\<close> and carries the first \<open>min((m+1)B, N)\<close> records, that is all
  records accumulated so far; no other file is written by the loop, and a written
  checkpoint replaces the previous one. With \<open>N = 120\<close> and \<open>B = 50\<close> the counts are
  50, 100 and 120.
\<close>

theorem checkpoint_cadence:
  "(\<forall>st. scrape_all env B urls = Inr st \<longrightarrow>
        to_csv_calls st =
          map (\<lambda>m. (''yc_scraping_progress.csv'', take ((m + 1) * B) (results st)))
            [0..<(length urls + B - 1) div B]
      \<and> length (to_csv_calls st) = (length urls + B - 1) div B
      \<and> (\<forall>m < length (to_csv_calls st).
            length (snd (to_csv_calls st ! m)) = min ((m + 1) * B) (length urls))
      \<and> (\<forall>path. path \<noteq> ''yc_scraping_progress.csv'' \<longrightarrow> files st path = None)
      \<and> ((\<forall>b. interim_write env b = Written) \<and> urls \<noteq> []
            \<longrightarrow> files st ''yc_scraping_progress.csv'' = Some (results st)))
   \<and> (0 < B
      \<and> (\<forall>k < length urls. task_outcome env k 0 \<noteq> Uncaught \<and> task_outcome env k 1 \<noteq> Uncaught)
      \<and> (\<forall>b. interim_write env b \<noteq> OtherWriteError)
      \<longrightarrow> (\<exists>st. scrape_all env B urls = Inr st))"
proof (intro conjI allI impI)
  fix st assume run: "scrape_all env B urls = Inr st"
  then have B: "0 < B" by (auto simp: scrape_all_def split: if_splits)
  let ?st0 = "initial_state\<lparr>printed := [Scraping (length urls)]\<rparr>"
  from run B have loop: "main_loop env B urls 0 ?st0 = Inr st" by (simp add: scrape_all_def)
  from main_loop_Inr [OF B this] obtain recs where
    len: "length recs = length urls" and
    res: "results st = recs" and
    calls: "to_csv_calls st =
         map (\<lambda>m. (''yc_scraping_progress.csv'', take ((m + 1) * B) recs))
           [0..<(length urls + B - 1) div B]"
    by (auto simp: initial_state_def)
  from calls res show c: "to_csv_calls st =
          map (\<lambda>m. (''yc_scraping_progress.csv'', take ((m + 1) * B) (results st)))
            [0..<(length urls + B - 1) div B]" by simp
  then show n: "length (to_csv_calls st) = (length urls + B - 1) div B" by simp
  {
    fix m assume "m < length (to_csv_calls st)"
    with n have "m < (length urls + B - 1) div B" by simp
    then have "to_csv_calls st ! m = (''yc_scraping_progress.csv'', take ((m + 1) * B) recs)"
      using calls by simp
    then show "length (snd (to_csv_calls st ! m)) = min ((m + 1) * B) (length urls)"
      using len by (simp add: min.commute)
  }
  {
    fix path :: string assume "path \<noteq> ''yc_scraping_progress.csv''"
    from main_loop_other_files [OF loop this]
    show "files st path = None" by (simp add: initial_state_def)
  }
  {
    assume "(\<forall>b. interim_write env b = Written) \<and> urls \<noteq> []"
    then show "files st ''yc_scraping_progress.csv'' = Some (results st)"
      using main_loop_checkpoint_file [OF loop _ B] by simp
  }
next
  assume a: "0 < B
      \<and> (\<forall>k < length urls. task_outcome env k 0 \<noteq> Uncaught \<and> task_outcome env k 1 \<noteq> Uncaught)
      \<and> (\<forall>b. interim_write env b \<noteq> OtherWriteError)"
  then have "\<exists>st. main_loop env B urls 0 (initial_state\<lparr>printed := [Scraping (length urls)]\<rparr>) = Inr st"
    by (intro main_loop_returns) simp_all
  with a show "\<exists>st. scrape_all env B urls = Inr st" by (simp add: scrape_all_def)
qed

theorem checkpoint_cadence_witness:
  "\<exists>st. scrape_all
           \<lparr>task_outcome = (\<lambda>k a. Caught), interim_write = (\<lambda>b. Written),
            final_write = Written, today = ''20240101''\<rparr>
           50 (replicate 120 ''u'') = Inr st
       \<and> map fst (to_csv_calls st) =
           [''yc_scraping_progress.csv'', ''yc_scraping_progress.csv'',
            ''yc_scraping_progress.csv'']
       \<and> map (\<lambda>call. length (snd call)) (to_csv_calls st) = [50, 100, 120]
       \<and> files st ''yc_scraping_progress.csv'' = Some (results st)"
proof -
  let ?env = "\<lparr>task_outcome = (\<lambda>k a. Caught), interim_write = (\<lambda>b. Written),
            final_write = Written, today = ''20240101''\<rparr>"
  let ?urls = "replicate 120 ''u''"
  have "\<exists>st. scrape_all ?env 50 ?urls = Inr st"
    using checkpoint_cadence [of ?env 50 ?urls] by simp
  then obtain st where st: "scrape_all ?env 50 ?urls = Inr st" ..
  have three: "[0..<(length ?urls + 50 - 1) div 50] = [0, 1, 2::nat]"
    by (simp add: upt_rec)
  note all = checkpoint_cadence [of ?env 50 ?urls, THEN conjunct1, THEN spec, THEN mp, OF st]
  from all have calls: "to_csv_calls st =
          map (\<lambda>m. (''yc_scraping_progress.csv'', take ((m + 1) * 50) (results st)))
            [0..<(length ?urls + 50 - 1) div 50]"
    by (rule conjunct1)
  from all have lens: "\<forall>m < length (to_csv_calls st).
            length (snd (to_csv_calls st ! m)) = min ((m + 1) * 50) (length ?urls)"
    by blast
  from all have ckpt: "files st ''yc_scraping_progress.csv'' = Some (results st)"
    by simp
  from calls have c3: "to_csv_calls st =
      [(''yc_scraping_progress.csv'', take 50 (results st)),
       (''yc_scraping_progress.csv'', take 100 (results st)),
       (''yc_scraping_progress.csv'', take 150 (results st))]"
    unfolding three by simp
  then have l3: "length (to_csv_calls st) = 3" by simp
  from lens [THEN spec, of 0] lens [THEN spec, of 1] lens [THEN spec, of 2] l3
  have "length (snd (to_csv_calls st ! 0)) = 50"
    "length (snd (to_csv_calls st ! 1)) = 100" "length (snd (to_csv_calls st ! 2)) = 120"
    by simp_all
  with c3 have "map (\<lambda>call. length (snd call)) (to_csv_calls st) = [50, 100, 120]"
    by simp
  with st c3 ckpt show ?thesis by simp
qed


text \<open>
  C6. When the interim write after a batch raises \<open>PermissionError\<close>, the save is skipped
  with a printed warning: \<open>to_csv\<close> is called once and not again, no file changes, the
  list \<open>results\<close> is untouched and no exception leaves. The whole run then goes on as if
  that write had succeeded: it ends the same way, with the same \<open>results\<close> and the same
  sequence of \<open>to_csv\<close> calls, the later interim writes and the final export included.
\<close>

theorem permission_error_skipped:
  assumes "interim_write env b = PermissionError"
  shows "interim_save env b st =
           Inr (st\<lparr>to_csv_calls :=
                      to_csv_calls st @ [(''yc_scraping_progress.csv'', results st)],
                    printed := printed st @ [PermissionWarning]\<rparr>)
       \<and> rel_sum (=) (\<lambda>s t. results s = results t \<and> to_csv_calls s = to_csv_calls t)
           (run denv env target_count B)
           (run denv (env\<lparr>interim_write := (interim_write env)(b := Written)\<rparr>) target_count B)"
proof
  show "interim_save env b st =
           Inr (st\<lparr>to_csv_calls :=
                      to_csv_calls st @ [(''yc_scraping_progress.csv'', results st)],
                    printed := printed st @ [PermissionWarning]\<rparr>)"
    using assms by (simp add: interim_save_def to_csv_def)
  show "rel_sum (=) (\<lambda>s t. results s = results t \<and> to_csv_calls s = to_csv_calls t)
           (run denv env target_count B)
           (run denv (env\<lparr>interim_write := (interim_write env)(b := Written)\<rparr>) target_count B)"
    using assms by (intro run_same) auto
qed

theorem permission_error_skipped_witness:
  "interim_write
     \<lparr>task_outcome = (\<lambda>k a. Caught),
      interim_write = (\<lambda>b. if b = 0 then PermissionError else Written),
      final_write = Written, today = ''20240101''\<rparr> 0 = PermissionError
   \<and> (\<exists>st. run \<lparr>goto_ok = True,
                  dom_after = (\<lambda>k. Some
                    [\<lparr>tag = ''a'', classes = [], href = Some ''/companies/a'',
                      inner_text = ''A'', visible = True\<rparr>,
                     \<lparr>tag = ''a'', classes = [], href = Some ''/companies/b'',
                      inner_text = ''B'', visible = True\<rparr>]),
                  set_order = (\<lambda>xs. xs)\<rparr>
                \<lparr>task_outcome = (\<lambda>k a. Caught),
                 interim_write = (\<lambda>b. if b = 0 then PermissionError else Written),
                 final_write = Written, today = ''20240101''\<rparr> 2 1 = Inr st
          \<and> results st =
              [[(''Company Name'', ''Error''), (''URL'', ''https://www.ycombinator.com/companies/a'')],
               [(''Company Name'', ''Error''), (''URL'', ''https://www.ycombinator.com/companies/b'')]]
          \<and> map fst (to_csv_calls st) =
              [''yc_scraping_progress.csv'', ''yc_scraping_progress.csv'',
               ''yc_scraping_20240101.csv''])"
proof -
  let ?D = "\<lparr>goto_ok = True,
                  dom_after = (\<lambda>k. Some
                    [\<lparr>tag = ''a'', classes = [], href = Some ''/companies/a'',
                      inner_text = ''A'', visible = True\<rparr>,
                     \<lparr>tag = ''a'', classes = [], href = Some ''/companies/b'',
                      inner_text = ''B'', visible = True\<rparr>]),
                  set_order = (\<lambda>xs. xs)\<rparr>"
  let ?E = "\<lparr>task_outcome = (\<lambda>k a. Caught),
                 interim_write = (\<lambda>b. if b = 0 then PermissionError else Written),
                 final_write = Written, today = ''20240101''\<rparr>"
  let ?ok = "?E\<lparr>interim_write := (interim_write ?E)(0 := Written)\<rparr>"
  let ?rows = "[[(''Company Name'', ''Error''), (''URL'', ''https://www.ycombinator.com/companies/a'')],
               [(''Company Name'', ''Error''), (''URL'', ''https://www.ycombinator.com/companies/b'')]]"
  let ?paths = "[''yc_scraping_progress.csv'', ''yc_scraping_progress.csv'',
               ''yc_scraping_20240101.csv'']"
  let ?f = "\<lambda>st. (results st, map fst (to_csv_calls st))"
  have denied: "interim_write ?E 0 = PermissionError" by simp
  have good: "map_sum id ?f (run ?D ?ok 2 1) = Inr (?rows, ?paths)"
    by code_simp
  have same: "rel_sum (=) (\<lambda>s t. results s = results t \<and> to_csv_calls s = to_csv_calls t)
           (run ?D ?E 2 1) (run ?D ?ok 2 1)"
    by (rule permission_error_skipped [OF denied, THEN conjunct2])
  have "\<exists>st. run ?D ?E 2 1 = Inr st \<and> results st = ?rows \<and> map fst (to_csv_calls st) = ?paths"
    by (rule same_run_Inr [OF same good])
  with denied show ?thesis by (rule conjI)
qed


text \<open>
  C3. Whenever \<open>scroll_and_extract_links\<close> returns, for a target count that is not
  negative, the list it returns is no longer than the target count, has no repeated
  entry, and each entry begins with \<open>https://www.ycombinator.com/companies/\<close>. It returns
  whenever the navigation and the page queries of its at most 150 rounds succeed. The
  order in which Python enumerates the set is left open: any permutation is allowed.
\<close>

theorem discovered_links:
  assumes "0 \<le> target_count" and "\<forall>xs. mset (set_order env xs) = mset xs"
  shows "(\<forall>urls. scroll_and_extract_links env target_count = Inr urls \<longrightarrow>
            int (length urls) \<le> target_count
          \<and> distinct urls
          \<and> (\<forall>u \<in> set urls. prefix ''https://www.ycombinator.com/companies/'' u))
       \<and> (goto_ok env \<and> (\<forall>k < 150. dom_after env k \<noteq> None)
            \<longrightarrow> (\<exists>urls. scroll_and_extract_links env target_count = Inr urls))"
proof (intro conjI allI impI ballI)
  fix urls assume r: "scroll_and_extract_links env target_count = Inr urls"
  then obtain found where loop: "scroll_loop (dom_after env) target_count [] 0 = Inr found"
    and urls: "urls = py_slice_to target_count (set_order env found)"
    by (auto simp: scroll_and_extract_links_def split: if_splits sum.splits)
  from scroll_loop_invariant [OF loop]
  have d: "distinct found"
    and p: "\<forall>u \<in> set found. prefix ''https://www.ycombinator.com/companies/'' u"
    by simp_all
  from assms(2) have m: "mset (set_order env found) = mset found" by simp
  from urls assms(1) have t: "urls = take (nat target_count) (set_order env found)"
    by (simp add: py_slice_to_def)
  from t assms(1) show "int (length urls) \<le> target_count" by simp
  from m d have "distinct (set_order env found)"
    by (metis mset_eq_imp_distinct_iff)
  with t show "distinct urls" by simp
  fix u assume "u \<in> set urls"
  with t have "u \<in> set (set_order env found)" by (auto dest: in_set_takeD)
  with m have "u \<in> set found" by (metis mset_eq_setD)
  with p show "prefix ''https://www.ycombinator.com/companies/'' u" by simp
next
  assume "goto_ok env \<and> (\<forall>k < 150. dom_after env k \<noteq> None)"
  then show "\<exists>urls. scroll_and_extract_links env target_count = Inr urls"
    using scroll_loop_returns [of "dom_after env" target_count "[]" 0]
    by (auto simp: scroll_and_extract_links_def)
qed

theorem discovered_links_witness:
  "scroll_and_extract_links
     \<lparr>goto_ok = True,
      dom_after = (\<lambda>k. Some
        [\<lparr>tag = ''a'', classes = [], href = Some ''/companies/a'',
          inner_text = ''A'', visible = True\<rparr>,
         \<lparr>tag = ''a'', classes = [], href = Some ''/companies/b'',
          inner_text = ''B'', visible = True\<rparr>,
         \<lparr>tag = ''a'', classes = [], href = Some ''/companies/a'',
          inner_text = ''A again'', visible = True\<rparr>,
         \<lparr>tag = ''a'', classes = [], href = Some ''/about'',
          inner_text = ''About'', visible = True\<rparr>,
         \<lparr>tag = ''a'', classes = [], href = Some ''/companies/c'',
          inner_text = ''C'', visible = True\<rparr>]),
      set_order = rev\<rparr> 2
     = Inr [''https://www.ycombinator.com/companies/c'',
            ''https://www.ycombinator.com/companies/b'']
   \<and> distinct [''https://www.ycombinator.com/companies/c'',
            ''https://www.ycombinator.com/companies/b'']
   \<and> prefix ''https://www.ycombinator.com/companies/''
        ''https://www.ycombinator.com/companies/c''"
proof -
  let ?D = "\<lparr>goto_ok = True,
      dom_after = (\<lambda>k. Some
        [\<lparr>tag = ''a'', classes = [], href = Some ''/companies/a'',
          inner_text = ''A'', visible = True\<rparr>,
         \<lparr>tag = ''a'', classes = [], href = Some ''/companies/b'',
          inner_text = ''B'', visible = True\<rparr>,
         \<lparr>tag = ''a'', classes = [], href = Some ''/companies/a'',
          inner_text = ''A again'', visible = True\<rparr>,
         \<lparr>tag = ''a'', classes = [], href = Some ''/about'',
          inner_text = ''About'', visible = True\<rparr>,
         \<lparr>tag = ''a'', classes = [], href = Some ''/companies/c'',
          inner_text = ''C'', visible = True\<rparr>]),
      set_order = rev\<rparr>"
  let ?urls = "[''https://www.ycombinator.com/companies/c'',
            ''https://www.ycombinator.com/companies/b'']"
  have z: "(0::int) \<le> 2" by simp
  have perm: "\<forall>xs. mset (set_order ?D xs) = mset xs" by simp
  have ev: "scroll_and_extract_links ?D 2 = Inr ?urls" by code_simp
  note props = discovered_links [OF z perm, THEN conjunct1, THEN spec, THEN mp, OF ev]
  from props have d: "distinct ?urls" by blast
  from props have "\<forall>u \<in> set ?urls. prefix ''https://www.ycombinator.com/companies/'' u"
    by blast
  then have "prefix ''https://www.ycombinator.com/companies/''
        ''https://www.ycombinator.com/companies/c''"
    by (rule bspec) (rule list.set_intros(1))
  with ev d show ?thesis by (intro conjI)
qed


text \<open>
  C9. In every state that a batch of tasks can reach over a semaphore of \<open>K\<close> permits, by
  any interleaving of their steps, at most \<open>K\<close> tasks are inside an attempt, and the free
  permits plus the tasks holding one (attempting, or sleeping before the retry) number
  exactly \<open>K\<close>. In every further step a task stops holding its permit only by reaching
  its terminal state, and the count of free permits rises only then.
\<close>

theorem limiter_bound:
  assumes "run_schedule acts (batch_start n K) = Some s"
  shows "length (filter in_attempt (tasks s)) \<le> K
       \<and> permits s + length (filter holds_permit (tasks s)) = K
       \<and> (\<forall>a s'. sched_step a s = Some s' \<longrightarrow>
             (\<forall>i < length (tasks s).
                holds_permit (tasks s ! i) \<and> \<not> holds_permit (tasks s' ! i)
                  \<longrightarrow> tasks s' ! i = Terminal \<and> permits s' = permits s + 1)
           \<and> (permits s < permits s'
                \<longrightarrow> (\<exists>i < length (tasks s).
                       holds_permit (tasks s ! i) \<and> tasks s' ! i = Terminal)))"
proof -
  from run_schedule_conserves [OF assms] batch_start_holders [of n K]
  have inv: "permits s + length (filter holds_permit (tasks s)) = K"
    by (simp add: batch_start_def)
  then have "length (filter holds_permit (tasks s)) \<le> K" by simp
  with attempting_le_holding [of "tasks s"]
  have bound: "length (filter in_attempt (tasks s)) \<le> K" by simp
  from bound inv sched_step_release_only_terminal show ?thesis by blast
qed

theorem limiter_bound_witness:
  "run_schedule [Acquire 0, Acquire 1, Fail 0, Resume 0] (batch_start 3 2)
     = Some \<lparr>tasks = [Attempting 1, Attempting 0, Pending], permits = 0\<rparr>
   \<and> length (filter in_attempt [Attempting 1, Attempting 0, Pending]) \<le> 2
   \<and> sched_step (Acquire 2) \<lparr>tasks = [Attempting 1, Attempting 0, Pending], permits = 0\<rparr> = None
   \<and> sched_step (Fail 0) \<lparr>tasks = [Attempting 1, Attempting 0, Pending], permits = 0\<rparr>
       = Some \<lparr>tasks = [Terminal, Attempting 0, Pending], permits = 1\<rparr>"
proof -
  let ?s = "\<lparr>tasks = [Attempting 1, Attempting 0, Pending], permits = 0\<rparr>"
  have r: "run_schedule [Acquire 0, Acquire 1, Fail 0, Resume 0] (batch_start 3 2) = Some ?s"
    by (simp add: batch_start_def set_task_def release_def numeral_3_eq_3)
  have blocked: "sched_step (Acquire 2) ?s = None" by simp
  have finished: "sched_step (Fail 0) ?s = Some \<lparr>tasks = [Terminal, Attempting 0, Pending], permits = 1\<rparr>"
    by (simp add: set_task_def release_def)
  from limiter_bound [OF r]
  have "length (filter in_attempt (tasks ?s)) \<le> 2" by (rule conjunct1)
  then have "length (filter in_attempt [Attempting 1, Attempting 0, Pending]) \<le> 2" by simp
  with r blocked finished show ?thesis by (intro conjI)
qed

end
